theory Spec2Isabelle
  imports
    Main
    "HOL-Library.AList"
    "HOL-Library.Multiset"
    "HOL-Library.Char_ord"
    "HOL-Library.List_Lexorder"
    "HOL-Library.Word"
begin

section \<open>The consul topology watcher (consul/watcher.go)\<close>

text \<open>
  A shallow embedding of \<^verbatim>\<open>consul/watcher.go\<close>: the \<^verbatim>\<open>Watcher\<close> aggregate, its
  long-poll loops, upstream reconciliation, the change notifier and the configuration
  synthesizer \<^verbatim>\<open>genCfg\<close>.

  Go strings are byte strings: \<open>string\<close>, compared bytewise (\<open>Char_ord\<close>,
  \<open>List_Lexorder\<close>). Go's \<^verbatim>\<open>int\<close> is only copied and compared with zero in this file,
  so it is \<open>int\<close>; the \<^verbatim>\<open>uint64\<close> blocking-query index is a \<open>64 word\<close>.
\<close>

subsection \<open>Types of the consul client library read by the watcher\<close>

text \<open>
  The types of \<^verbatim>\<open>github.com/hashicorp/consul/api\<close> are not part of this repository. Each
  record has the fields that \<^verbatim>\<open>watcher.go\<close> reads. The health checks of a service entry
  are only handed to the library method \<^verbatim>\<open>AggregatedStatus\<close>, so their type is the
  parameter \<open>'c\<close>. \<open>SE_Rest\<close>, of the parameter type \<open>'r\<close>, stands for every other field of
  the entry, of its node and of its service: \<^verbatim>\<open>watcher.go\<close> reads none of them, and
  \<^verbatim>\<open>reflect.DeepEqual\<close> compares them all, as the equality of the record does.
\<close>

record Node =
  Node_Node :: string
  Node_Address :: string

record AgentWeights =
  Passing :: int
  Warning :: int

record AgentServiceE =
  AS_Address :: string
  AS_Port :: int
  AS_Weights :: AgentWeights

record ('c, 'r) ServiceEntry =
  SE_Node :: Node
  SE_Service :: AgentServiceE
  SE_Checks :: 'c
  SE_Rest :: 'r

text \<open>A value of Go's \<^verbatim>\<open>interface{}\<close> in a \<^verbatim>\<open>map[string]interface{}\<close> configuration
  block: the type assertions \<^verbatim>\<open>.(string)\<close> and \<^verbatim>\<open>.(bool)\<close> succeed on \<open>VString\<close> and
  \<open>VBool\<close> only.\<close>

datatype ivalue = VString string | VBool bool | VOther

text \<open>The type assertions on the answer of a map lookup: \<open>None\<close> is \<^verbatim>\<open>ok == false\<close>, for
  a missing key and for a value of another type.\<close>

definition asString :: "ivalue option \<Rightarrow> string option" where
  "asString v = (case v of Some (VString x) \<Rightarrow> Some x | _ \<Rightarrow> None)"

definition asBool :: "ivalue option \<Rightarrow> bool option" where
  "asBool v = (case v of Some (VBool x) \<Rightarrow> Some x | _ \<Rightarrow> None)"

record Upstream_api =
  A_DestinationType :: string
  A_DestinationName :: string
  A_Datacenter :: string
  A_LocalBindAddress :: string
  A_LocalBindPort :: int
  A_Config :: "string \<rightharpoonup> ivalue"

record ProxyConfig =
  P_Config :: "(string \<rightharpoonup> ivalue) option"
  P_Upstreams :: "Upstream_api list"

record AgentService =
  S_Service :: string
  S_Port :: int
  S_Proxy :: "ProxyConfig option"

definition HealthPassing :: string where
  "HealthPassing = ''passing''"

definition HealthWarning :: string where
  "HealthWarning = ''warning''"

definition UpstreamDestTypePreparedQuery :: string where
  "UpstreamDestTypePreparedQuery = ''prepared_query''"

text \<open>
  The library and runtime functions the watcher calls, as parameters:
  \<^verbatim>\<open>HealthChecks.AggregatedStatus\<close>, \<^verbatim>\<open>time.ParseDuration\<close> (\<open>None\<close> is its error; a
  duration is a number of nanoseconds) and \<^verbatim>\<open>CertPool.AppendCertsFromPEM\<close>.
\<close>

record 'c env =
  AggregatedStatus :: "'c \<Rightarrow> string"
  ParseDuration :: "string \<Rightarrow> int option"
  AppendCertsFromPEM :: "string \<Rightarrow> bool"

subsection \<open>Constants and state of the watcher\<close>

definition defaultDownstreamBindAddr :: string where
  "defaultDownstreamBindAddr = ''0.0.0.0''"

definition defaultUpstreamBindAddr :: string where
  "defaultUpstreamBindAddr = ''127.0.0.1''"

definition second :: int where
  "second = 1000000000"

definition errorWaitTime :: int where
  "errorWaitTime = 5 * second"

definition preparedQueryPollInterval :: int where
  "preparedQueryPollInterval = 30 * second"

record ('c, 'r) upstream =
  u_LocalBindAddress :: string
  u_LocalBindPort :: int
  u_Name :: string
  u_Datacenter :: string
  u_Protocol :: string
  u_Nodes :: "('c, 'r) ServiceEntry list"
  u_done :: bool

record downstream =
  d_LocalBindAddress :: string
  d_LocalBindPort :: int
  d_Protocol :: string
  d_TargetAddress :: string
  d_TargetPort :: int
  d_EnableForwardFor :: bool
  d_AppNameHeaderName :: string

record certLeaf =
  l_Cert :: string
  l_Key :: string
  l_done :: bool

subsection \<open>The synthesized configuration\<close>

text \<open>The \<^verbatim>\<open>Config\<close> types are declared in another file of the package; the fields are
  those \<^verbatim>\<open>genCfg\<close> fills in.\<close>

record TLS =
  CAs :: "string list"
  Cert :: string
  Key :: string

record UpstreamNode =
  N_Name :: string
  N_Address :: string
  N_Port :: int
  N_Weight :: int

record Upstream =
  U_Name :: string
  U_LocalBindAddress :: string
  U_LocalBindPort :: int
  U_Protocol :: string
  U_TLS :: TLS
  U_Nodes :: "UpstreamNode list"

record Downstream =
  D_LocalBindAddress :: string
  D_LocalBindPort :: int
  D_TargetAddress :: string
  D_TargetPort :: int
  D_Protocol :: string
  D_EnableForwardFor :: bool
  D_AppNameHeaderName :: string
  D_TLS :: TLS

record Config =
  ServiceName :: string
  ServiceID :: string
  CAsPool :: "string list option"
  Downstream :: Downstream
  Upstreams :: "Upstream list"

subsection \<open>Channels and the wait group\<close>

text \<open>
  The channel \<^verbatim>\<open>update\<close> carries \<^verbatim>\<open>struct{}\<close> values, so a buffered channel is its
  capacity and the number of values waiting in it. A send or a receive that cannot
  proceed is \<open>None\<close>: the goroutine would block.
\<close>

record chan =
  cap :: nat
  buf :: nat

definition make_chan :: "nat \<Rightarrow> chan" where
  "make_chan n = \<lparr>cap = n, buf = 0\<rparr>"

definition send :: "chan \<Rightarrow> chan option" where
  "send c = (if buf c < cap c then Some (c\<lparr>buf := buf c + 1\<rparr>) else None)"

definition recv :: "chan \<Rightarrow> chan option" where
  "recv c = (if 0 < buf c then Some (c\<lparr>buf := buf c - 1\<rparr>) else None)"

datatype level = Debug | Info | Warn | Error

text \<open>
  The goroutine that \<^verbatim>\<open>startUpstreamService\<close> or \<^verbatim>\<open>startUpstreamPreparedQuery\<close>
  starts, as the variables its closure holds: the pointer \<^verbatim>\<open>u\<close>, the upstream
  definition \<^verbatim>\<open>up\<close>, and \<^verbatim>\<open>index\<close>, or \<^verbatim>\<open>interval\<close> and \<^verbatim>\<open>last\<close> (\<open>None\<close> is the nil
  slice, which \<^verbatim>\<open>reflect.DeepEqual\<close> tells from an empty one). \<open>polling\<close> holds from
  the moment the goroutine has tested \<^verbatim>\<open>u.done\<close> and sent its query until the answer is
  there; \<open>returned\<close> is set once the goroutine has left its loop; \<open>slept\<close> adds up the
  time spent in \<^verbatim>\<open>time.Sleep\<close>.
\<close>

record svcLoop =
  s_u :: nat
  s_up :: Upstream_api
  s_index :: "64 word"
  s_polling :: bool
  s_returned :: bool
  s_slept :: int

record ('c, 'r) pqLoop =
  q_u :: nat
  q_up :: Upstream_api
  q_interval :: int
  q_last :: "('c, 'r) ServiceEntry list option"
  q_polling :: bool
  q_returned :: bool
  q_slept :: int

datatype ('c, 'r) goroutine = ServiceLoop svcLoop | PreparedQueryLoop "('c, 'r) pqLoop"

text \<open>
  The \<^verbatim>\<open>Watcher\<close> struct. \<open>upstreams\<close> maps a key to the address of an \<^verbatim>\<open>upstream\<close>
  object; the objects live in \<open>heap\<close>, where \<open>fresh\<close> is the next unused address,
  because the goroutine of an upstream keeps its pointer after the key has left the map.
  The association list gives one order in which Go may range over the map.
  \<open>goroutines\<close> are the upstream goroutines started so far. \<open>C\<close> holds the
  configurations sent on the output channel so far, \<open>ready\<close> is the counter of the
  wait group, and \<open>log\<close> the level and format of every log call. The consul client and
  the token are outside the model, and so is the mutex: every function below runs as one
  atomic step.
\<close>

record ('c, 'r) Watcher =
  service :: string
  serviceName :: string
  C :: "Config list"
  ready :: int
  upstreams :: "(string \<times> nat) list"
  heap :: "nat \<Rightarrow> ('c, 'r) upstream"
  fresh :: nat
  goroutines :: "('c, 'r) goroutine list"
  downstream :: downstream
  certCAs :: "string list"
  certCAPool :: "string list option"
  leaf :: "certLeaf option"
  update :: chan
  log :: "(level \<times> string) list"

definition logf :: "level \<Rightarrow> string \<Rightarrow> ('c, 'r) Watcher \<Rightarrow> ('c, 'r) Watcher" where
  "logf l fmt w = w\<lparr>log := log w @ [(l, fmt)]\<rparr>"

subsection \<open>notifyChanged\<close>

text \<open>\<^verbatim>\<open>select { case w.update <- struct{}{}: default: }\<close>: the send is taken when it can
  proceed, the empty default otherwise.\<close>

definition notifyChanged :: "('c, 'r) Watcher \<Rightarrow> ('c, 'r) Watcher" where
  "notifyChanged w = (case send (update w) of Some c \<Rightarrow> w\<lparr>update := c\<rparr> | None \<Rightarrow> w)"

subsection \<open>genCfg\<close>

text \<open>
  \<^verbatim>\<open>sort.Slice\<close> belongs to Go's standard library. On a short slice it is an insertion
  sort: each element in turn is swapped with its left neighbour for as long as it
  compares less. \<open>sink\<close> is that inner loop on the reversed prefix (the left neighbour
  is the head). On a slice of more than twelve elements \<^verbatim>\<open>sort.Slice\<close> runs another
  algorithm, which may leave elements that compare equal in another order than \<open>sortSlice\<close>
  does. The results below use of \<open>sortSlice\<close> only that the output is a rearrangement of
  the input in which no element compares less than one before it, which every sorting
  algorithm gives; the order it leaves between elements that compare equal is used in
  one place, on a slice of two elements, where \<^verbatim>\<open>sort.Slice\<close> is this insertion sort.
\<close>

fun sink :: "('a \<Rightarrow> 'a \<Rightarrow> bool) \<Rightarrow> 'a \<Rightarrow> 'a list \<Rightarrow> 'a list" where
  "sink lt x [] = [x]"
| "sink lt x (y # rs) = (if lt x y then y # sink lt x rs else x # y # rs)"

definition sortSlice :: "('a \<Rightarrow> 'a \<Rightarrow> bool) \<Rightarrow> 'a list \<Rightarrow> 'a list" where
  "sortSlice lt xs = rev (foldl (\<lambda>rs x. sink lt x rs) [] xs)"

datatype panic = NilPointerDereference

text \<open>The body of the loop over \<^verbatim>\<open>up.Nodes\<close>: \<open>None\<close> is \<^verbatim>\<open>continue\<close>, \<open>Some n\<close> the
  node appended to \<^verbatim>\<open>upstream.Nodes\<close>.\<close>

definition genNode :: "'c env \<Rightarrow> ('c, 'r) ServiceEntry \<Rightarrow> UpstreamNode option" where
  "genNode env s =
     (let name = Node_Node (SE_Node s);
          address = AS_Address (SE_Service s);
          address = (if address = [] then Node_Address (SE_Node s) else address);
          status = AggregatedStatus env (SE_Checks s)
      in case (if status = HealthPassing then Some (Passing (AS_Weights (SE_Service s)))
               else if status = HealthWarning then Some (Warning (AS_Weights (SE_Service s)))
               else None) of
           None \<Rightarrow> None
         | Some weight \<Rightarrow>
             if weight = 0 then None
             else Some \<lparr>N_Name = name, N_Address = address,
                        N_Port = AS_Port (SE_Service s), N_Weight = weight\<rparr>)"

fun genNodes :: "'c env \<Rightarrow> ('c, 'r) ServiceEntry list \<Rightarrow> UpstreamNode list \<Rightarrow> UpstreamNode list" where
  "genNodes env [] acc = acc"
| "genNodes env (s # ss) acc =
     (case genNode env s of
        None \<Rightarrow> genNodes env ss acc
      | Some n \<Rightarrow> genNodes env ss (acc @ [n]))"

definition nameLess :: "UpstreamNode \<Rightarrow> UpstreamNode \<Rightarrow> bool" where
  "nameLess a b = (N_Name a < N_Name b)"

text \<open>The body of the loop over \<^verbatim>\<open>w.upstreams\<close>, for a leaf that is present.\<close>

definition genUpstream :: "'c env \<Rightarrow> string list \<Rightarrow> certLeaf \<Rightarrow> ('c, 'r) upstream \<Rightarrow> Upstream" where
  "genUpstream env cas lf up =
     \<lparr>U_Name = u_Name up,
      U_LocalBindAddress = u_LocalBindAddress up,
      U_LocalBindPort = u_LocalBindPort up,
      U_Protocol = u_Protocol up,
      U_TLS = \<lparr>CAs = cas, Cert = l_Cert lf, Key = l_Key lf\<rparr>,
      U_Nodes = sortSlice nameLess (genNodes env (u_Nodes up) [])\<rparr>"

text \<open>\<^verbatim>\<open>genCfg\<close> reads \<^verbatim>\<open>w.leaf.Cert\<close> while it builds the downstream: with a nil leaf it
  panics. The second component is the watcher after the two \<^verbatim>\<open>Debugf\<close> calls (the second
  one is deferred and runs on a panic too).\<close>

definition genCfg :: "'c env \<Rightarrow> ('c, 'r) Watcher \<Rightarrow> (panic + Config) \<times> ('c, 'r) Watcher" where
  "genCfg env w =
     (let w1 = logf Debug ''generating configuration for service %s[%s]...'' w;
          w2 = logf Debug ''done generating configuration, instances: %d/%d total'' w1
      in case leaf w of
           None \<Rightarrow> (Inl NilPointerDereference, w2)
         | Some lf \<Rightarrow>
             (Inr \<lparr>ServiceName = serviceName w,
                   ServiceID = service w,
                   CAsPool = certCAPool w,
                   Downstream =
                     \<lparr>D_LocalBindAddress = d_LocalBindAddress (downstream w),
                      D_LocalBindPort = d_LocalBindPort (downstream w),
                      D_TargetAddress = d_TargetAddress (downstream w),
                      D_TargetPort = d_TargetPort (downstream w),
                      D_Protocol = d_Protocol (downstream w),
                      D_EnableForwardFor = d_EnableForwardFor (downstream w),
                      D_AppNameHeaderName = d_AppNameHeaderName (downstream w),
                      D_TLS = \<lparr>CAs = certCAs w, Cert = l_Cert lf, Key = l_Key lf\<rparr>\<rparr>,
                   Upstreams =
                     map (\<lambda>(name, a). genUpstream env (certCAs w) lf (heap w a)) (upstreams w)\<rparr>,
              w2))"


subsection \<open>New\<close>

text \<open>Every field that \<^verbatim>\<open>New\<close> does not set has Go's zero value; the memory holds no
  object yet.\<close>

definition zero_upstream :: "('c, 'r) upstream" where
  "zero_upstream =
     \<lparr>u_LocalBindAddress = [], u_LocalBindPort = 0, u_Name = [], u_Datacenter = [],
      u_Protocol = [], u_Nodes = [], u_done = False\<rparr>"

definition New :: "string \<Rightarrow> ('c, 'r) Watcher" where
  "New svc =
     \<lparr>service = svc,
      serviceName = [],
      C = [],
      ready = 0,
      upstreams = [],
      heap = (\<lambda>a. zero_upstream),
      fresh = 0,
      goroutines = [],
      downstream =
        \<lparr>d_LocalBindAddress = [], d_LocalBindPort = 0, d_Protocol = [],
         d_TargetAddress = [], d_TargetPort = 0, d_EnableForwardFor = False,
         d_AppNameHeaderName = []\<rparr>,
      certCAs = [],
      certCAPool = None,
      leaf = None,
      update = make_chan 1,
      log = []\<rparr>"

subsection \<open>Starting and removing upstream watchers\<close>

text \<open>The answer of a consul query: an error, or a value with its \<^verbatim>\<open>QueryMeta\<close>.\<close>

record QueryMeta =
  LastIndex :: "64 word"
  LastContentHash :: string

datatype 'a response = Failed | Got 'a QueryMeta

definition newUpstream :: "Upstream_api \<Rightarrow> string \<Rightarrow> ('c, 'r) upstream" where
  "newUpstream up name =
     (let u = \<lparr>u_LocalBindAddress = A_LocalBindAddress up,
               u_LocalBindPort = A_LocalBindPort up,
               u_Name = name,
               u_Datacenter = A_Datacenter up,
               u_Protocol = [],
               u_Nodes = [],
               u_done = False\<rparr>
      in case asString (A_Config up ''protocol'') of
           Some p \<Rightarrow> u\<lparr>u_Protocol := p\<rparr>
         | None \<Rightarrow> u)"

text \<open>\<^verbatim>\<open>w.upstreams[name] = u\<close> for a new object \<^verbatim>\<open>u\<close>, and the \<^verbatim>\<open>go\<close> statement
  that follows it. The object gets its address when it is stored.\<close>

definition register :: "string \<Rightarrow> ('c, 'r) upstream \<Rightarrow> (nat \<Rightarrow> ('c, 'r) goroutine) \<Rightarrow> ('c, 'r) Watcher \<Rightarrow> ('c, 'r) Watcher" where
  "register name u loop w =
     w\<lparr>heap := (heap w)(fresh w := u),
       fresh := fresh w + 1,
       upstreams := AList.update name (fresh w) (upstreams w),
       goroutines := goroutines w @ [loop (fresh w)]\<rparr>"

definition startUpstreamService :: "Upstream_api \<Rightarrow> string \<Rightarrow> ('c, 'r) Watcher \<Rightarrow> ('c, 'r) Watcher" where
  "startUpstreamService up name w =
     (let w = logf Info ''consul: watching upstream for service %s'' w;
          u = newUpstream up name
      in register name u
           (\<lambda>a. ServiceLoop \<lparr>s_u = a, s_up = up, s_index = 0, s_polling = False, s_returned = False,
                               s_slept = 0\<rparr>) w)"

definition startUpstreamPreparedQuery ::
    "'c env \<Rightarrow> Upstream_api \<Rightarrow> string \<Rightarrow> ('c, 'r) Watcher \<Rightarrow> ('c, 'r) Watcher" where
  "startUpstreamPreparedQuery env up name w =
     (let w = logf Info ''consul: watching upstream for prepared_query %s'' w;
          u = newUpstream up name;
          start = (\<lambda>interval. register name u
            (\<lambda>a. PreparedQueryLoop \<lparr>q_u = a, q_up = up, q_interval = interval, q_last = None,
                                     q_polling = False, q_returned = False, q_slept = 0\<rparr>) w)
      in case asString (A_Config up ''poll_interval'') of
           Some p \<Rightarrow>
             (case ParseDuration env p of
                None \<Rightarrow> logf Error ''consul: upstream %s %s: invalid poll interval %s: %s'' w
              | Some dur \<Rightarrow> start dur)
         | None \<Rightarrow> start preparedQueryPollInterval)"

text \<open>\<^verbatim>\<open>w.upstreams[name].done = true\<close> dereferences the map's answer: for a key that is
  not in the map that is a nil pointer.\<close>

definition removeUpstream :: "string \<Rightarrow> ('c, 'r) Watcher \<Rightarrow> panic + ('c, 'r) Watcher" where
  "removeUpstream name w =
     (let w = logf Info ''consul: removing upstream for service %s'' w
      in case map_of (upstreams w) name of
           None \<Rightarrow> Inl NilPointerDereference
         | Some a \<Rightarrow>
             Inr (w\<lparr>heap := (heap w)(a := (heap w a)\<lparr>u_done := True\<rparr>),
                    upstreams := AList.delete name (upstreams w)\<rparr>))"

subsection \<open>handleProxyChange\<close>

definition applyConfig :: "(string \<rightharpoonup> ivalue) \<Rightarrow> downstream \<Rightarrow> downstream" where
  "applyConfig c d =
     (let d = (case asString (c ''protocol'') of
                 Some x \<Rightarrow> d\<lparr>d_Protocol := x\<rparr> | None \<Rightarrow> d);
          d = (case asString (c ''bind_address'') of
                 Some x \<Rightarrow> d\<lparr>d_LocalBindAddress := x\<rparr> | None \<Rightarrow> d);
          d = (case asString (c ''local_service_address'') of
                 Some x \<Rightarrow> d\<lparr>d_TargetAddress := x\<rparr> | None \<Rightarrow> d);
          d = (case asBool (c ''enable_forwardfor'') of
                 Some x \<Rightarrow> d\<lparr>d_EnableForwardFor := x\<rparr> | None \<Rightarrow> d);
          d = (case asString (c ''appname_header'') of
                 Some x \<Rightarrow> d\<lparr>d_AppNameHeaderName := x\<rparr> | None \<Rightarrow> d)
      in d)"

text \<open>\<^verbatim>\<open>fmt.Sprintf("%s_%s", up.DestinationType, up.DestinationName)\<close>\<close>

definition upstreamKey :: "Upstream_api \<Rightarrow> string" where
  "upstreamKey up = A_DestinationType up @ ''_'' @ A_DestinationName up"

text \<open>The loop over \<^verbatim>\<open>srv.Proxy.Upstreams\<close>, with the set \<^verbatim>\<open>keep\<close>; \<open>startIfMissing\<close> is
  what its body does to the watcher.\<close>

definition startIfMissing :: "'c env \<Rightarrow> Upstream_api \<Rightarrow> ('c, 'r) Watcher \<Rightarrow> ('c, 'r) Watcher" where
  "startIfMissing env up w =
     (let name = upstreamKey up
      in case map_of (upstreams w) name of
           Some a \<Rightarrow> w
         | None \<Rightarrow>
             if A_DestinationType up = UpstreamDestTypePreparedQuery
             then startUpstreamPreparedQuery env up name w
             else startUpstreamService up name w)"

fun startMissing ::
    "'c env \<Rightarrow> Upstream_api list \<Rightarrow> string set \<times> ('c, 'r) Watcher \<Rightarrow> string set \<times> ('c, 'r) Watcher" where
  "startMissing env [] kw = kw"
| "startMissing env (up # ups) (keep, w) =
     startMissing env ups (insert (upstreamKey up) keep, startIfMissing env up w)"

text \<open>The loop \<^verbatim>\<open>for name := range w.upstreams\<close>, over the keys the map has when the loop
  starts: the body deletes no key but the one it is at.\<close>

fun removeStale :: "string set \<Rightarrow> string list \<Rightarrow> ('c, 'r) Watcher \<Rightarrow> panic + ('c, 'r) Watcher" where
  "removeStale keep [] w = Inr w"
| "removeStale keep (name # names) w =
     (if name \<notin> keep
      then (case removeUpstream name w of
              Inl p \<Rightarrow> Inl p
            | Inr w1 \<Rightarrow> removeStale keep names w1)
      else removeStale keep names w)"

definition Done :: "('c, 'r) Watcher \<Rightarrow> ('c, 'r) Watcher" where
  "Done w = w\<lparr>ready := ready w - 1\<rparr>"

text \<open>The first part of \<^verbatim>\<open>handleProxyChange\<close>: the fields of \<^verbatim>\<open>w.downstream\<close> it
  writes.\<close>

definition configureDownstream :: "AgentService \<Rightarrow> downstream \<Rightarrow> downstream" where
  "configureDownstream srv d =
     (let d = d\<lparr>d_LocalBindAddress := defaultDownstreamBindAddr,
                d_LocalBindPort := S_Port srv,
                d_TargetAddress := defaultUpstreamBindAddr\<rparr>
      in case S_Proxy srv of
           None \<Rightarrow> d
         | Some p \<Rightarrow> (case P_Config p of None \<Rightarrow> d | Some c \<Rightarrow> applyConfig c d))"

definition handleProxyChange ::
    "'c env \<Rightarrow> bool \<Rightarrow> AgentService \<Rightarrow> ('c, 'r) Watcher \<Rightarrow> panic + ('c, 'r) Watcher" where
  "handleProxyChange env first srv w =
     (let w = w\<lparr>downstream := configureDownstream srv (downstream w)\<rparr>;
          (keep, w) = (case S_Proxy srv of
                         None \<Rightarrow> ({}, w)
                       | Some p \<Rightarrow> startMissing env (P_Upstreams p) ({}, w))
      in case removeStale keep (map fst (upstreams w)) w of
           Inl p \<Rightarrow> Inl p
         | Inr w \<Rightarrow> Inr (if first then Done w else w))"

subsection \<open>The watch loops\<close>

text \<open>
  The local variables of a watch loop: the index or hash of the last answer
  (\<^verbatim>\<open>lastIndex\<close> in \<^verbatim>\<open>watchCA\<close> and \<^verbatim>\<open>watchLeaf\<close>, \<^verbatim>\<open>hash\<close> in \<^verbatim>\<open>watchService\<close>), \<^verbatim>\<open>first\<close>,
  and the time spent in \<^verbatim>\<open>time.Sleep\<close>. Each \<open>_iter\<close> function is one turn of the loop
  for the answer the query gave.
\<close>

record 'i pollLoop =
  p_lastSeen :: 'i
  p_first :: bool
  p_slept :: int

record CARootList =
  ActiveRootID :: string
  Roots :: "string list"

record LeafCert =
  CertPEM :: string
  PrivateKeyPEM :: string

fun addRoots :: "'c env \<Rightarrow> string list \<Rightarrow> ('c, 'r) Watcher \<Rightarrow> ('c, 'r) Watcher" where
  "addRoots env [] w = w"
| "addRoots env (pem # pems) w =
     (let w = w\<lparr>certCAs := certCAs w @ [pem]\<rparr>;
          w = (if AppendCertsFromPEM env pem
               then w\<lparr>certCAPool := map_option (\<lambda>pool. pool @ [pem]) (certCAPool w)\<rparr>
               else logf Warn ''consul: unable to add CA certificate to pool for root id: %s'' w)
      in addRoots env pems w)"

text \<open>
  One turn of \<^verbatim>\<open>watchCA\<close>. \<^verbatim>\<open>w.certCAs[:0]\<close> keeps the array of the slice, and the slices
  of CA certificates in the configurations sent before may point into that array; here
  a configuration, once sent, is a value and keeps the certificates it was sent with.
\<close>

definition watchCA_iter ::
    "'c env \<Rightarrow> CARootList response \<Rightarrow> (64 word) pollLoop \<times> ('c, 'r) Watcher
       \<Rightarrow> (64 word) pollLoop \<times> ('c, 'r) Watcher" where
  "watchCA_iter env r = (\<lambda>(l, w).
     case r of
       Failed \<Rightarrow>
         (l\<lparr>p_slept := p_slept l + errorWaitTime, p_lastSeen := 0\<rparr>,
          logf Error ''consul: error fetching cas: %s'' w)
     | Got caList meta \<Rightarrow>
         (let changed = (p_lastSeen l \<noteq> LastIndex meta);
              l = l\<lparr>p_lastSeen := LastIndex meta\<rparr>;
              w = (if changed
                   then (let w = logf Info ''consul: CA certs changed, active root id: %s'' w;
                             w = w\<lparr>certCAs := [], certCAPool := Some []\<rparr>;
                             w = addRoots env (Roots caList) w
                         in notifyChanged w)
                   else w)
          in if p_first l
             then (l\<lparr>p_first := False\<rparr>, Done (logf Info ''consul: CA certs ready'' w))
             else (l, w)))"

definition watchLeaf_iter ::
    "LeafCert response \<Rightarrow> (64 word) pollLoop \<times> ('c, 'r) Watcher \<Rightarrow> (64 word) pollLoop \<times> ('c, 'r) Watcher" where
  "watchLeaf_iter r = (\<lambda>(l, w).
     case r of
       Failed \<Rightarrow>
         (l\<lparr>p_slept := p_slept l + errorWaitTime, p_lastSeen := 0\<rparr>,
          logf Error ''consul error fetching leaf cert for service %s: %s'' w)
     | Got cert meta \<Rightarrow>
         (let changed = (p_lastSeen l \<noteq> LastIndex meta);
              l = l\<lparr>p_lastSeen := LastIndex meta\<rparr>;
              w = (if changed
                   then (let w = logf Info ''consul: leaf cert for service %s changed, serial: %s, valid before: %s, valid after: %s'' w;
                             lf = (case leaf w of
                                     None \<Rightarrow> \<lparr>l_Cert = [], l_Key = [], l_done = False\<rparr>
                                   | Some lf \<Rightarrow> lf);
                             w = w\<lparr>leaf := Some (lf\<lparr>l_Cert := CertPEM cert,
                                                     l_Key := PrivateKeyPEM cert\<rparr>)\<rparr>
                         in notifyChanged w)
                   else w)
          in if p_first l
             then (l\<lparr>p_first := False\<rparr>, Done (logf Info ''consul: leaf cert for %s ready'' w))
             else (l, w)))"

definition watchService_iter ::
    "(bool \<Rightarrow> AgentService \<Rightarrow> ('c, 'r) Watcher \<Rightarrow> panic + ('c, 'r) Watcher) \<Rightarrow> AgentService response
       \<Rightarrow> string pollLoop \<times> ('c, 'r) Watcher \<Rightarrow> panic + string pollLoop \<times> ('c, 'r) Watcher" where
  "watchService_iter handler r = (\<lambda>(l, w).
     case r of
       Failed \<Rightarrow>
         Inr (l\<lparr>p_slept := p_slept l + errorWaitTime, p_lastSeen := []\<rparr>,
              logf Error ''consul: error fetching service %s definition: %s'' w)
     | Got srv meta \<Rightarrow>
         (let changed = (p_lastSeen l \<noteq> LastContentHash meta);
              l = l\<lparr>p_lastSeen := LastContentHash meta\<rparr>
          in if changed
             then (case handler (p_first l) srv (logf Debug ''consul: service %s changed'' w) of
                     Inl p \<Rightarrow> Inl p
                   | Inr w \<Rightarrow> Inr (l\<lparr>p_first := False\<rparr>, notifyChanged w))
             else Inr (l\<lparr>p_first := False\<rparr>, w)))"

text \<open>The handler that \<^verbatim>\<open>Run\<close> gives to the watch of the service itself.\<close>

definition handlePort :: "bool \<Rightarrow> AgentService \<Rightarrow> ('c, 'r) Watcher \<Rightarrow> panic + ('c, 'r) Watcher" where
  "handlePort first srv w =
     (let w = w\<lparr>downstream := (downstream w)\<lparr>d_TargetPort := S_Port srv\<rparr>\<rparr>
      in Inr (if first then Done w else w))"

text \<open>
  The goroutine of \<^verbatim>\<open>startUpstreamService\<close>. \<open>serviceLoop_head\<close> is the head of its loop:
  it returns when \<^verbatim>\<open>u.done\<close> is set, and sends the query otherwise. \<open>serviceLoop_answer\<close> is
  the rest of the turn, for the answer of \<^verbatim>\<open>Health().Connect\<close>: the code does not look at
  \<^verbatim>\<open>u.done\<close> again, so the answer is stored and signalled also when the upstream was
  removed while the query was out.
\<close>

definition serviceLoop_head :: "svcLoop \<times> ('c, 'r) Watcher \<Rightarrow> svcLoop" where
  "serviceLoop_head = (\<lambda>(g, w).
     if u_done (heap w (s_u g)) then g\<lparr>s_returned := True\<rparr> else g\<lparr>s_polling := True\<rparr>)"

definition serviceLoop_answer ::
    "('c, 'r) ServiceEntry list response \<Rightarrow> svcLoop \<times> ('c, 'r) Watcher
       \<Rightarrow> svcLoop \<times> ('c, 'r) Watcher" where
  "serviceLoop_answer r = (\<lambda>(g, w).
     case r of
       Failed \<Rightarrow>
         (g\<lparr>s_slept := s_slept g + errorWaitTime, s_index := 0, s_polling := False\<rparr>,
          logf Error ''consul: error fetching service definition for service %s: %s'' w)
     | Got nodes meta \<Rightarrow>
         (let changed = (s_index g \<noteq> LastIndex meta);
              g = g\<lparr>s_index := LastIndex meta, s_polling := False\<rparr>
          in if changed
             then (g, notifyChanged
                        (w\<lparr>heap := (heap w)(s_u g := (heap w (s_u g))\<lparr>u_Nodes := nodes\<rparr>)\<rparr>))
             else (g, w)))"

text \<open>
  The goroutine of \<^verbatim>\<open>startUpstreamPreparedQuery\<close>, in the same two parts, for the answer
  of \<^verbatim>\<open>PreparedQuery().Execute\<close>. \<^verbatim>\<open>nodesP\<close> is never nil, and \<^verbatim>\<open>reflect.DeepEqual\<close> on two
  slices of pointers compares the entries they point to, field by field.
\<close>

definition preparedQueryLoop_head :: "('c, 'r) pqLoop \<times> ('c, 'r) Watcher \<Rightarrow> ('c, 'r) pqLoop" where
  "preparedQueryLoop_head = (\<lambda>(g, w).
     if u_done (heap w (q_u g)) then g\<lparr>q_returned := True\<rparr> else g\<lparr>q_polling := True\<rparr>)"

definition preparedQueryLoop_answer ::
    "('c, 'r) ServiceEntry list response \<Rightarrow> ('c, 'r) pqLoop \<times> ('c, 'r) Watcher
       \<Rightarrow> ('c, 'r) pqLoop \<times> ('c, 'r) Watcher" where
  "preparedQueryLoop_answer r = (\<lambda>(g, w).
     case r of
       Failed \<Rightarrow>
         (g\<lparr>q_slept := q_slept g + errorWaitTime, q_polling := False\<rparr>,
          logf Error ''consul: error fetching service definition for service %s: %s'' w)
     | Got nodes meta \<Rightarrow>
         (let nodesP = nodes;
              (g, w) = (if q_last g \<noteq> Some nodesP
                        then (g\<lparr>q_last := Some nodesP\<rparr>,
                              notifyChanged
                                (w\<lparr>heap := (heap w)(q_u g := (heap w (q_u g))\<lparr>u_Nodes := nodesP\<rparr>)\<rparr>))
                        else (g, w))
          in (g\<lparr>q_slept := q_slept g + q_interval g, q_polling := False\<rparr>, w)))"

subsection \<open>Run and the interleaving of the goroutines\<close>

text \<open>
  \<^verbatim>\<open>Run\<close> up to \<^verbatim>\<open>w.ready.Wait()\<close>. Its two arguments are the answers of
  \<^verbatim>\<open>proxy.LookupProxyIDForSidecar\<close> and of \<^verbatim>\<open>Agent().Service\<close>, \<open>None\<close> for an error,
  which \<^verbatim>\<open>Run\<close> returns. Each \<^verbatim>\<open>go\<close> statement is taken up to the head of the loop of
  its goroutine.
\<close>

datatype startup_error = LookupProxyIDError | AgentServiceError

datatype pc = Waiting | Ranging

record ('c, 'r) System =
  watcher :: "('c, 'r) Watcher"
  caLoop :: "(64 word) pollLoop"
  leafLoop :: "(64 word) pollLoop"
  proxyLoop :: "string pollLoop"
  portLoop :: "string pollLoop"
  main :: pc
  crashed :: "panic option"

definition Run :: "string option \<Rightarrow> AgentService option \<Rightarrow> ('c, 'r) Watcher \<Rightarrow> startup_error + ('c, 'r) System" where
  "Run proxyID svc w =
     (case proxyID of
        None \<Rightarrow> Inl LookupProxyIDError
      | Some pid \<Rightarrow>
          (case svc of
             None \<Rightarrow> Inl AgentServiceError
           | Some sv \<Rightarrow>
               (let w = w\<lparr>serviceName := S_Service sv\<rparr>;
                    w = w\<lparr>ready := ready w + 4\<rparr>;
                    w = logf Debug ''consul: watching ca certs'' w;
                    w = logf Debug ''consul: watching leaf cert for %s'' w;
                    w = logf Info ''consul: watching service %s'' w;
                    w = logf Info ''consul: watching service %s'' w
                in Inr \<lparr>watcher = w,
                        caLoop = \<lparr>p_lastSeen = 0, p_first = True, p_slept = 0\<rparr>,
                        leafLoop = \<lparr>p_lastSeen = 0, p_first = True, p_slept = 0\<rparr>,
                        proxyLoop = \<lparr>p_lastSeen = [], p_first = True, p_slept = 0\<rparr>,
                        portLoop = \<lparr>p_lastSeen = [], p_first = True, p_slept = 0\<rparr>,
                        main = Waiting,
                        crashed = None\<rparr>)))"

text \<open>
  The rest of \<^verbatim>\<open>Run\<close>, one step at a time: \<^verbatim>\<open>w.ready.Wait()\<close> returns once the counter
  is zero; then each turn of \<^verbatim>\<open>for range w.update\<close> receives one signal and sends the
  result of \<^verbatim>\<open>genCfg\<close> on \<^verbatim>\<open>w.C\<close>. Where the goroutine blocks, the step changes nothing.
  A panic ends the process.
\<close>

definition Run_iter :: "'c env \<Rightarrow> ('c, 'r) System \<Rightarrow> ('c, 'r) System" where
  "Run_iter env s =
     (case main s of
        Waiting \<Rightarrow> if ready (watcher s) = 0 then s\<lparr>main := Ranging\<rparr> else s
      | Ranging \<Rightarrow>
          (case recv (update (watcher s)) of
             None \<Rightarrow> s
           | Some c \<Rightarrow>
               (case genCfg env ((watcher s)\<lparr>update := c\<rparr>) of
                  (Inl p, w) \<Rightarrow> s\<lparr>watcher := w, crashed := Some p\<rparr>
                | (Inr cfg, w) \<Rightarrow> s\<lparr>watcher := w\<lparr>C := C w @ [cfg]\<rparr>\<rparr>)))"

text \<open>
  An event is one turn of one goroutine: a watch loop with the answer of its query, the
  upstream goroutine of a given number at the head of its loop or with the answer of its
  query, or \<^verbatim>\<open>Run\<close> itself. An upstream goroutine that has returned takes no turn, one
  that waits for its answer is not at the head of its loop, and an answer comes only to
  one that waits for it.
\<close>

datatype ('c, 'r) event =
    CA "CARootList response"
  | Leaf "LeafCert response"
  | Proxy "AgentService response"
  | Port "AgentService response"
  | Head nat
  | Answer nat "('c, 'r) ServiceEntry list response"
  | Main

definition upstream_head :: "nat \<Rightarrow> ('c, 'r) Watcher \<Rightarrow> ('c, 'r) Watcher" where
  "upstream_head n w =
     (if n < length (goroutines w)
      then (case goroutines w ! n of
              ServiceLoop g \<Rightarrow>
                if s_returned g \<or> s_polling g then w
                else w\<lparr>goroutines := (goroutines w)[n := ServiceLoop (serviceLoop_head (g, w))]\<rparr>
            | PreparedQueryLoop g \<Rightarrow>
                if q_returned g \<or> q_polling g then w
                else w\<lparr>goroutines :=
                        (goroutines w)[n := PreparedQueryLoop (preparedQueryLoop_head (g, w))]\<rparr>)
      else w)"

definition upstream_answer ::
    "nat \<Rightarrow> ('c, 'r) ServiceEntry list response \<Rightarrow> ('c, 'r) Watcher \<Rightarrow> ('c, 'r) Watcher" where
  "upstream_answer n r w =
     (if n < length (goroutines w)
      then (case goroutines w ! n of
              ServiceLoop g \<Rightarrow>
                if s_polling g
                then (case serviceLoop_answer r (g, w) of
                        (g, w) \<Rightarrow> w\<lparr>goroutines := (goroutines w)[n := ServiceLoop g]\<rparr>)
                else w
            | PreparedQueryLoop g \<Rightarrow>
                if q_polling g
                then (case preparedQueryLoop_answer r (g, w) of
                        (g, w) \<Rightarrow> w\<lparr>goroutines := (goroutines w)[n := PreparedQueryLoop g]\<rparr>)
                else w)
      else w)"

definition step :: "'c env \<Rightarrow> ('c, 'r) event \<Rightarrow> ('c, 'r) System \<Rightarrow> ('c, 'r) System" where
  "step env ev s =
     (if crashed s \<noteq> None then s
      else case ev of
        CA r \<Rightarrow>
          (case watchCA_iter env r (caLoop s, watcher s) of
             (l, w) \<Rightarrow> s\<lparr>caLoop := l, watcher := w\<rparr>)
      | Leaf r \<Rightarrow>
          (case watchLeaf_iter r (leafLoop s, watcher s) of
             (l, w) \<Rightarrow> s\<lparr>leafLoop := l, watcher := w\<rparr>)
      | Proxy r \<Rightarrow>
          (case watchService_iter (handleProxyChange env) r (proxyLoop s, watcher s) of
             Inl p \<Rightarrow> s\<lparr>crashed := Some p\<rparr>
           | Inr (l, w) \<Rightarrow> s\<lparr>proxyLoop := l, watcher := w\<rparr>)
      | Port r \<Rightarrow>
          (case watchService_iter handlePort r (portLoop s, watcher s) of
             Inl p \<Rightarrow> s\<lparr>crashed := Some p\<rparr>
           | Inr (l, w) \<Rightarrow> s\<lparr>portLoop := l, watcher := w\<rparr>)
      | Head n \<Rightarrow> s\<lparr>watcher := upstream_head n (watcher s)\<rparr>
      | Answer n r \<Rightarrow> s\<lparr>watcher := upstream_answer n r (watcher s)\<rparr>
      | Main \<Rightarrow> Run_iter env s)"

definition run :: "'c env \<Rightarrow> ('c, 'r) event list \<Rightarrow> ('c, 'r) System \<Rightarrow> ('c, 'r) System" where
  "run env evs s = foldl (\<lambda>s ev. step env ev s) s evs"

subsection \<open>The claims in the words of the specification\<close>

text \<open>An instance is kept when its aggregated status is passing or warning and the
  weight configured for that status is not zero.\<close>

definition included :: "'c env \<Rightarrow> ('c, 'r) ServiceEntry \<Rightarrow> bool" where
  "included env s =
     (AggregatedStatus env (SE_Checks s) = HealthPassing \<and> Passing (AS_Weights (SE_Service s)) \<noteq> 0 \<or>
      AggregatedStatus env (SE_Checks s) = HealthWarning \<and> Warning (AS_Weights (SE_Service s)) \<noteq> 0)"

text \<open>The node of a kept instance: the service address unless it is empty, then the
  address of the node; the passing weight for a passing instance, the warning weight for
  a warning one.\<close>

definition synthesized :: "'c env \<Rightarrow> ('c, 'r) ServiceEntry \<Rightarrow> UpstreamNode" where
  "synthesized env s =
     \<lparr>N_Name = Node_Node (SE_Node s),
      N_Address = (if AS_Address (SE_Service s) \<noteq> [] then AS_Address (SE_Service s)
                   else Node_Address (SE_Node s)),
      N_Port = AS_Port (SE_Service s),
      N_Weight = (if AggregatedStatus env (SE_Checks s) = HealthPassing
                  then Passing (AS_Weights (SE_Service s))
                  else Warning (AS_Weights (SE_Service s)))\<rparr>"

text \<open>The upstream list of a registration; a registration without a proxy block has
  none.\<close>

definition proxyUpstreams :: "AgentService \<Rightarrow> Upstream_api list" where
  "proxyUpstreams srv = (case S_Proxy srv of None \<Rightarrow> [] | Some p \<Rightarrow> P_Upstreams p)"




text \<open>The keys of the map, and the keys the upstream list of a registration asks for.\<close>

definition keys :: "('c, 'r) Watcher \<Rightarrow> string set" where
  "keys w = fst ` set (upstreams w)"

definition desired :: "AgentService \<Rightarrow> string set" where
  "desired srv = upstreamKey ` set (proxyUpstreams srv)"

text \<open>An upstream whose watcher can be started: any upstream that is not a prepared
  query, and a prepared query whose \<open>poll_interval\<close>, when it is a string, parses as a
  duration.\<close>

definition startable :: "'c env \<Rightarrow> Upstream_api \<Rightarrow> bool" where
  "startable env up =
     (if A_DestinationType up = UpstreamDestTypePreparedQuery
      then (case asString (A_Config up ''poll_interval'') of
              Some p \<Rightarrow> ParseDuration env p \<noteq> None
            | None \<Rightarrow> True)
      else True)"

text \<open>The address of the upstream object a goroutine holds.\<close>

fun goroutine_u :: "('c, 'r) goroutine \<Rightarrow> nat" where
  "goroutine_u (ServiceLoop g) = s_u g"
| "goroutine_u (PreparedQueryLoop g) = q_u g"

text \<open>The map is a map (no key twice), and the objects in the map and in the goroutines
  have been allocated.\<close>

definition wf_upstreams :: "('c, 'r) Watcher \<Rightarrow> bool" where
  "wf_upstreams w =
     (distinct (map fst (upstreams w)) \<and>
      (\<forall>a \<in> snd ` set (upstreams w). a < fresh w) \<and>
      (\<forall>g \<in> set (goroutines w). goroutine_u g < fresh w))"

text \<open>What starting one watcher does, when it is started.\<close>

definition started :: "string \<Rightarrow> ('c, 'r) Watcher \<Rightarrow> ('c, 'r) Watcher \<Rightarrow> bool" where
  "started name w w1 =
     (keys w1 = insert name (keys w) \<and>
      map_of (upstreams w1) = (map_of (upstreams w))(name \<mapsto> fresh w) \<and>
      fresh w1 = fresh w + 1 \<and>
      (\<forall>a. a \<noteq> fresh w \<longrightarrow> heap w1 a = heap w a) \<and>
      \<not> u_done (heap w1 (fresh w)) \<and> u_Name (heap w1 (fresh w)) = name \<and>
      (\<exists>g. goroutines w1 = goroutines w @ [g] \<and> goroutine_u g = fresh w) \<and>
      downstream w1 = downstream w \<and>
      (wf_upstreams w \<longrightarrow> wf_upstreams w1))"

text \<open>What a call leaves alone when it starts nothing: all but the log.\<close>

definition only_logged :: "('c, 'r) Watcher \<Rightarrow> ('c, 'r) Watcher \<Rightarrow> bool" where
  "only_logged w w1 = (w1\<lparr>log := log w\<rparr> = w)"

text \<open>What one turn of the loop over the upstream list keeps of the watcher: the objects
  allocated before, the addresses of the keys tracked before, the goroutines started
  before; and every new address has its goroutine.\<close>

definition extends :: "('c, 'r) Watcher \<Rightarrow> ('c, 'r) Watcher \<Rightarrow> bool" where
  "extends w w1 =
     (fresh w \<le> fresh w1 \<and>
      (\<forall>a < fresh w. heap w1 a = heap w a) \<and>
      (\<forall>k \<in> keys w. map_of (upstreams w1) k = map_of (upstreams w) k) \<and>
      (\<forall>k \<in> keys w1 - keys w. \<exists>a. map_of (upstreams w1) k = Some a \<and> fresh w \<le> a \<and>
          a < fresh w1 \<and> \<not> u_done (heap w1 a) \<and> u_Name (heap w1 a) = k) \<and>
      (\<exists>gs. goroutines w1 = goroutines w @ gs \<and> goroutine_u ` set gs = {fresh w ..< fresh w1}) \<and>
      (wf_upstreams w \<longrightarrow> wf_upstreams w1))"

text \<open>The objects of the keys that the loop over the map removes, and the memory with
  these objects marked done.\<close>

definition stale :: "string set \<Rightarrow> string list \<Rightarrow> ('c, 'r) Watcher \<Rightarrow> nat set" where
  "stale keep names w = {a. \<exists>k. (k, a) \<in> set (upstreams w) \<and> k \<notin> keep \<and> k \<in> set names}"

definition mark_done :: "nat set \<Rightarrow> (nat \<Rightarrow> ('c, 'r) upstream) \<Rightarrow> nat \<Rightarrow> ('c, 'r) upstream" where
  "mark_done A h = (\<lambda>a. if a \<in> A then (h a)\<lparr>u_done := True\<rparr> else h a)"

text \<open>The upstream object behind the \<open>i\<close>-th key of the map.\<close>

definition tracked :: "('c, 'r) Watcher \<Rightarrow> nat \<Rightarrow> ('c, 'r) upstream" where
  "tracked w i = heap w (snd (upstreams w ! i))"

text \<open>The fields that only the watch loops and \<^verbatim>\<open>Run\<close> write: the channel, the wait
  group, the output, the leaf and the CA certificates.\<close>

definition same_core :: "('c, 'r) Watcher \<Rightarrow> ('c, 'r) Watcher \<Rightarrow> bool" where
  "same_core w v =
     (update w = update v \<and> ready w = ready v \<and> C w = C v \<and> leaf w = leaf v \<and>
      certCAs w = certCAs v \<and> certCAPool w = certCAPool v)"

text \<open>The channel as \<^verbatim>\<open>New\<close> makes it: capacity one, at most one signal waiting.\<close>

definition chan_ok :: "('c, 'r) Watcher \<Rightarrow> bool" where
  "chan_ok w = (cap (update w) = 1 \<and> buf (update w) \<le> 1)"

text \<open>The number of watch loops, of the four that \<^verbatim>\<open>Run\<close> starts, that have not yet
  finished a successful turn.\<close>

definition at_first :: "'i pollLoop \<Rightarrow> int" where
  "at_first l = (if p_first l then 1 else 0)"

definition pending_watches :: "('c, 'r) System \<Rightarrow> int" where
  "pending_watches s =
     at_first (caLoop s) + at_first (leafLoop s) + at_first (proxyLoop s) + at_first (portLoop s)"

text \<open>What holds in every state of a run: the wait group counts at least the loops that
  are still at their first turn, nothing is sent while \<^verbatim>\<open>Run\<close> waits, and \<^verbatim>\<open>Run\<close> is past
  the wait only when no loop is at its first turn.\<close>

definition barrier_inv :: "('c, 'r) System \<Rightarrow> bool" where
  "barrier_inv s =
     (pending_watches s \<le> ready (watcher s) \<and>
      (main s = Waiting \<longrightarrow> C (watcher s) = []) \<and>
      (main s = Ranging \<longrightarrow> pending_watches s = 0) \<and>
      chan_ok (watcher s))"

subsection \<open>Example inputs\<close>

definition ex_env :: "string env" where
  "ex_env =
     \<lparr>AggregatedStatus = (\<lambda>c. c),
      ParseDuration = (\<lambda>p. if p = ''1s'' then Some second else None),
      AppendCertsFromPEM = (\<lambda>pem. True)\<rparr>"

definition ex_entry :: "string \<Rightarrow> string \<Rightarrow> string \<Rightarrow> int \<Rightarrow> int \<Rightarrow> string \<Rightarrow> (string, unit) ServiceEntry" where
  "ex_entry name nodeAddr svcAddr port weight status =
     \<lparr>SE_Node = \<lparr>Node_Node = name, Node_Address = nodeAddr\<rparr>,
      SE_Service = \<lparr>AS_Address = svcAddr, AS_Port = port,
                    AS_Weights = \<lparr>Passing = weight, Warning = weight\<rparr>\<rparr>,
      SE_Checks = status,
      SE_Rest = ()\<rparr>"

definition ex_nodes :: "(string, unit) ServiceEntry list" where
  "ex_nodes =
     [ex_entry ''n2'' ''10.0.0.2'' [] 8080 1 ''passing'',
      ex_entry ''n3'' ''10.0.0.3'' [] 8080 0 ''passing'',
      ex_entry ''n4'' ''10.0.0.4'' [] 8080 1 ''critical'',
      ex_entry ''n1'' ''10.0.0.1'' ''192.168.0.1'' 8080 2 ''warning'']"

definition ex_watcher :: "(string, unit) ServiceEntry list \<Rightarrow> (string, unit) Watcher" where
  "ex_watcher nodes =
     (New ''web'')
       \<lparr>leaf := Some \<lparr>l_Cert = ''cert'', l_Key = ''key'', l_done = False\<rparr>,
        upstreams := [(''service_db'', 0)],
        heap := (\<lambda>a. zero_upstream)(0 := zero_upstream\<lparr>u_Name := ''service_db'', u_Nodes := nodes\<rparr>),
        fresh := 1\<rparr>"

text \<open>Two instances of one upstream on the same node, on different ports.\<close>

definition ex_same_name :: "(string, unit) ServiceEntry list" where
  "ex_same_name =
     [ex_entry ''n1'' ''10.0.0.1'' [] 8080 1 ''passing'',
      ex_entry ''n1'' ''10.0.0.1'' [] 9090 1 ''passing'']"

text \<open>A start of the service \<open>web\<close> with its sidecar: the CA roots, the leaf, the
  registration of the sidecar and that of the service arrive, then \<^verbatim>\<open>Run\<close> takes two
  turns.\<close>

definition ex_meta :: "64 word \<Rightarrow> string \<Rightarrow> QueryMeta" where
  "ex_meta i h = \<lparr>LastIndex = i, LastContentHash = h\<rparr>"

definition ex_service :: AgentService where
  "ex_service = \<lparr>S_Service = ''web'', S_Port = 8080, S_Proxy = None\<rparr>"

definition ex_upstream_api :: "string \<Rightarrow> string \<Rightarrow> (string \<rightharpoonup> ivalue) \<Rightarrow> Upstream_api" where
  "ex_upstream_api ty name cfg =
     \<lparr>A_DestinationType = ty, A_DestinationName = name, A_Datacenter = ''dc1'',
      A_LocalBindAddress = ''127.0.0.1'', A_LocalBindPort = 9000, A_Config = cfg\<rparr>"

definition ex_sidecar :: "Upstream_api list \<Rightarrow> AgentService" where
  "ex_sidecar ups =
     \<lparr>S_Service = ''web-sidecar-proxy'', S_Port = 21000,
      S_Proxy = Some \<lparr>P_Config = Some [''protocol'' \<mapsto> VString ''http''], P_Upstreams = ups\<rparr>\<rparr>"

definition ex_start :: "(string, unit) System" where
  "ex_start = projr (Run (Some ''web-sidecar-proxy'') (Some ex_service) (New ''web''))"

definition ex_trace :: "64 word \<Rightarrow> (string, unit) event list" where
  "ex_trace leafIndex =
     [CA (Got \<lparr>ActiveRootID = ''root'', Roots = [''ca'']\<rparr> (ex_meta 1 [])),
      Leaf (Got \<lparr>CertPEM = ''cert'', PrivateKeyPEM = ''key''\<rparr> (ex_meta leafIndex [])),
      Proxy (Got (ex_sidecar [ex_upstream_api ''service'' ''db'' Map.empty]) (ex_meta 0 ''h1'')),
      Port (Got ex_service (ex_meta 0 ''h2'')),
      Main,
      Main]"



definition ex_bad_interval :: Upstream_api where
  "ex_bad_interval =
     ex_upstream_api ''prepared_query'' ''geo'' [''poll_interval'' \<mapsto> VString ''soon'']"

section \<open>Properties\<close>

subsection \<open>Sorting\<close>

lemma mset_sink: "mset (sink lt x rs) = add_mset x (mset rs)"
  by (induction rs) auto

lemma mset_foldl_sink: "mset (foldl (\<lambda>rs x. sink lt x rs) acc xs) = mset acc + mset xs"
  by (induction xs arbitrary: acc) (auto simp: mset_sink)

lemma mset_sortSlice: "mset (sortSlice lt xs) = mset xs"
  by (simp add: sortSlice_def mset_foldl_sink)

lemma set_sink: "set (sink lt x rs) = insert x (set rs)"
  using mset_sink [of lt x rs] by (metis set_mset_mset set_mset_add_mset_insert)

lemma sorted_sink:
  "sorted_wrt (\<lambda>a b. f b \<le> (f a :: 'k :: linorder)) rs \<Longrightarrow>
   sorted_wrt (\<lambda>a b. f b \<le> f a) (sink (\<lambda>a b. f a < f b) x rs)"
  by (induction rs) (auto simp: set_sink)

lemma sorted_foldl_sink:
  "sorted_wrt (\<lambda>a b. f b \<le> (f a :: 'k :: linorder)) acc \<Longrightarrow>
   sorted_wrt (\<lambda>a b. f b \<le> f a) (foldl (\<lambda>rs x. sink (\<lambda>a b. f a < f b) x rs) acc xs)"
  by (induction xs arbitrary: acc) (auto simp: sorted_sink)

lemma sorted_sortSlice:
  "sorted_wrt (\<lambda>a b. (f a :: 'k :: linorder) \<le> f b) (sortSlice (\<lambda>a b. f a < f b) xs)"
  unfolding sortSlice_def sorted_wrt_rev
  by (rule sorted_foldl_sink) simp

text \<open>Two lists of nodes in name order with the same elements are the same list, when
  no name occurs twice.\<close>

lemma sorted_names_unique:
  assumes "sorted_wrt (\<lambda>a b. N_Name a \<le> N_Name b) xs"
    and "sorted_wrt (\<lambda>a b. N_Name a \<le> N_Name b) ys"
    and "mset xs = mset ys" and "distinct (map N_Name xs)"
  shows "xs = ys"
proof -
  have m: "mset (map N_Name xs) = mset (map N_Name ys)"
    using assms(3) by simp
  then have d: "distinct (map N_Name ys)"
    using assms(4) by (metis mset_eq_imp_distinct_iff)
  have s: "set xs = set ys"
    using assms(3) by (metis set_mset_mset)
  have "map N_Name xs = map N_Name ys"
  proof (rule sorted_distinct_set_unique)
    show "sorted (map N_Name xs)" using assms(1) by (simp add: sorted_map)
    show "sorted (map N_Name ys)" using assms(2) by (simp add: sorted_map)
    show "set (map N_Name xs) = set (map N_Name ys)" using m by (metis set_mset_mset)
  qed (use assms(4) d in auto)
  moreover have "inj_on N_Name (set xs \<union> set ys)"
    using assms(4) s by (simp add: distinct_map)
  ultimately show ?thesis
    by (metis inj_on_map_eq_map)
qed

subsection \<open>genCfg: which instances are kept\<close>

lemma genNodes_acc: "genNodes env ss acc = acc @ List.map_filter (genNode env) ss"
  by (induction ss arbitrary: acc) (auto simp: List.map_filter_simps split: option.splits)

lemma genNode_included:
  "genNode env s = (if included env s then Some (synthesized env s) else None)"
  by (auto simp: genNode_def Let_def included_def synthesized_def HealthPassing_def HealthWarning_def)

lemma genNodes_filter:
  "genNodes env ss [] = map (synthesized env) (filter (included env) ss)"
  by (induction ss) (simp_all add: genNodes_acc List.map_filter_simps genNode_included)

lemma genCfg_Inr:
  assumes "fst (genCfg env w) = Inr cfg"
  obtains lf where "leaf w = Some lf"
    and "Upstreams cfg = map (\<lambda>(name, a). genUpstream env (certCAs w) lf (heap w a)) (upstreams w)"
  using assms by (auto simp: genCfg_def Let_def split: option.splits)

lemma genCfg_upstream:
  assumes "fst (genCfg env w) = Inr cfg" and "i < length (upstreams w)"
  shows "U_Name (Upstreams cfg ! i) = u_Name (tracked w i)"
    and "U_Nodes (Upstreams cfg ! i) =
           sortSlice nameLess (map (synthesized env) (filter (included env) (u_Nodes (tracked w i))))"
proof -
  from assms(1) obtain lf where
    "Upstreams cfg = map (\<lambda>(name, a). genUpstream env (certCAs w) lf (heap w a)) (upstreams w)"
    by (rule genCfg_Inr)
  with assms(2) show "U_Name (Upstreams cfg ! i) = u_Name (tracked w i)"
    and "U_Nodes (Upstreams cfg ! i) =
           sortSlice nameLess (map (synthesized env) (filter (included env) (u_Nodes (tracked w i))))"
    by (simp_all add: genUpstream_def genNodes_filter tracked_def case_prod_beta)
qed

lemma genCfg_length:
  assumes "fst (genCfg env w) = Inr cfg"
  shows "length (Upstreams cfg) = length (upstreams w)"
  using assms by (elim genCfg_Inr) simp

lemma genCfg_mset:
  assumes "fst (genCfg env w) = Inr cfg" and "i < length (upstreams w)"
  shows "mset (U_Nodes (Upstreams cfg ! i)) =
           image_mset (synthesized env) (filter_mset (included env) (mset (u_Nodes (tracked w i))))"
  by (simp add: genCfg_upstream(2) [OF assms] mset_sortSlice)

lemma genCfg_set:
  assumes "fst (genCfg env w) = Inr cfg" and "i < length (upstreams w)"
  shows "set (U_Nodes (Upstreams cfg ! i)) =
           synthesized env ` {s \<in> set (u_Nodes (tracked w i)). included env s}"
proof -
  have "set (U_Nodes (Upstreams cfg ! i)) =
          set (map (synthesized env) (filter (included env) (u_Nodes (tracked w i))))"
    unfolding genCfg_upstream(2) [OF assms]
    using mset_sortSlice by (metis set_mset_mset)
  then show ?thesis by simp
qed

lemma synthesized_weight: "included env s \<Longrightarrow> N_Weight (synthesized env s) \<noteq> 0"
  by (auto simp: included_def synthesized_def HealthPassing_def HealthWarning_def)

text \<open>
  C1. The configuration has one upstream for each tracked upstream, in the order of the
  map, and the nodes of that upstream are exactly the nodes of the instances of its raw
  node list whose aggregated status is passing or warning with a non-zero weight for that
  status, each as often as the instance occurs. So an instance of any other status, or
  of weight zero, gives no node, and no node has weight zero.
\<close>

theorem genCfg_weight_exclusion:
  assumes "fst (genCfg env w) = Inr cfg" and "i < length (upstreams w)"
  shows "length (Upstreams cfg) = length (upstreams w) \<and>
         U_Name (Upstreams cfg ! i) = u_Name (tracked w i) \<and>
         mset (U_Nodes (Upstreams cfg ! i)) =
           image_mset (synthesized env) (filter_mset (included env) (mset (u_Nodes (tracked w i)))) \<and>
         (\<forall>n \<in> set (U_Nodes (Upstreams cfg ! i)). N_Weight n \<noteq> 0)"
proof -
  have "\<forall>n \<in> set (U_Nodes (Upstreams cfg ! i)). N_Weight n \<noteq> 0"
    unfolding genCfg_set [OF assms] by (auto simp: synthesized_weight)
  then show ?thesis
    using genCfg_length [OF assms(1)] genCfg_upstream(1) [OF assms] genCfg_mset [OF assms]
    by simp
qed

lemma ex_genCfg:
  "fst (genCfg ex_env (ex_watcher nodes)) = Inr (projr (fst (genCfg ex_env (ex_watcher nodes))))"
  by (simp add: genCfg_def ex_watcher_def Let_def logf_def)

lemma ex_tracked: "u_Nodes (tracked (ex_watcher nodes) 0) = nodes"
  by (simp add: tracked_def ex_watcher_def)

lemma ex_length: "0 < length (upstreams (ex_watcher nodes))"
  by (simp add: ex_watcher_def)

theorem genCfg_weight_exclusion_witness:
  "mset (U_Nodes (Upstreams (projr (fst (genCfg ex_env (ex_watcher ex_nodes)))) ! 0)) =
     {#\<lparr>N_Name = ''n2'', N_Address = ''10.0.0.2'', N_Port = 8080, N_Weight = 1\<rparr>,
       \<lparr>N_Name = ''n1'', N_Address = ''192.168.0.1'', N_Port = 8080, N_Weight = 2\<rparr>#} \<and>
   length (Upstreams (projr (fst (genCfg ex_env (ex_watcher ex_nodes))))) = 1"
  using genCfg_weight_exclusion [OF ex_genCfg ex_length, of ex_nodes]
  by (simp add: ex_tracked)
     (simp add: ex_nodes_def ex_entry_def ex_env_def included_def synthesized_def
        HealthPassing_def HealthWarning_def ex_watcher_def)

subsection \<open>genCfg: the order of the nodes\<close>

lemma nameLess_eq: "nameLess = (\<lambda>a b. N_Name a < N_Name b)"
  by (simp add: nameLess_def fun_eq_iff)

lemma genCfg_sorted:
  assumes "fst (genCfg env w) = Inr cfg" and "i < length (upstreams w)"
  shows "sorted_wrt (\<lambda>a b. N_Name a \<le> N_Name b) (U_Nodes (Upstreams cfg ! i))"
  unfolding genCfg_upstream(2) [OF assms] nameLess_eq by (rule sorted_sortSlice)

lemma genCfg_distinct:
  assumes "fst (genCfg env w) = Inr cfg" and "i < length (upstreams w)"
    and "distinct (map (\<lambda>s. Node_Node (SE_Node s)) (filter (included env) (u_Nodes (tracked w i))))"
  shows "distinct (map N_Name (U_Nodes (Upstreams cfg ! i)))"
proof -
  let ?xs = "map (synthesized env) (filter (included env) (u_Nodes (tracked w i)))"
  have e: "map N_Name ?xs =
      map (\<lambda>s. Node_Node (SE_Node s)) (filter (included env) (u_Nodes (tracked w i)))"
    by (simp add: synthesized_def)
  have "distinct (map N_Name ?xs)"
    unfolding e by (rule assms(3))
  moreover have "mset (map N_Name (U_Nodes (Upstreams cfg ! i))) = mset (map N_Name ?xs)"
    unfolding genCfg_upstream(2) [OF assms(1,2)] by (simp only: mset_map mset_sortSlice)
  ultimately show ?thesis
    by (metis mset_eq_imp_distinct_iff)
qed

lemma genCfg_permuted:
  assumes "fst (genCfg env w) = Inr cfg" and "fst (genCfg env v) = Inr cfg'"
    and "i < length (upstreams w)" and "j < length (upstreams v)"
    and "mset (u_Nodes (tracked w i)) = mset (u_Nodes (tracked v j))"
    and "distinct (map (\<lambda>s. Node_Node (SE_Node s)) (filter (included env) (u_Nodes (tracked w i))))"
  shows "U_Nodes (Upstreams cfg ! i) = U_Nodes (Upstreams cfg' ! j)"
proof (rule sorted_names_unique)
  show "sorted_wrt (\<lambda>a b. N_Name a \<le> N_Name b) (U_Nodes (Upstreams cfg ! i))"
    by (rule genCfg_sorted [OF assms(1,3)])
  show "sorted_wrt (\<lambda>a b. N_Name a \<le> N_Name b) (U_Nodes (Upstreams cfg' ! j))"
    by (rule genCfg_sorted [OF assms(2,4)])
  show "mset (U_Nodes (Upstreams cfg ! i)) = mset (U_Nodes (Upstreams cfg' ! j))"
    by (simp add: genCfg_mset [OF assms(1,3)] genCfg_mset [OF assms(2,4)] assms(5))
  show "distinct (map N_Name (U_Nodes (Upstreams cfg ! i)))"
    by (rule genCfg_distinct [OF assms(1,3,6)])
qed

lemma genCfg_address:
  assumes "fst (genCfg env w) = Inr cfg" and "i < length (upstreams w)"
  shows "\<forall>n \<in> set (U_Nodes (Upstreams cfg ! i)). \<exists>s \<in> set (u_Nodes (tracked w i)).
           included env s \<and> N_Name n = Node_Node (SE_Node s) \<and>
           N_Address n = (if AS_Address (SE_Service s) \<noteq> [] then AS_Address (SE_Service s)
                          else Node_Address (SE_Node s))"
  unfolding genCfg_set [OF assms] by (auto simp: synthesized_def)

text \<open>
  C9, as the code has it. The node list of every synthesized upstream is in ascending
  order of node name, and each of its nodes has the name of a kept instance of the
  upstream and, as its address, the service address of that instance, or the address of
  its node when the service address is empty. When the kept instances have pairwise
  different node names, a watcher whose raw node list for an upstream holds the same
  instances in any other order synthesizes the same node list for it.
\<close>

theorem genCfg_sorted_by_name:
  assumes "fst (genCfg env w) = Inr cfg" and "i < length (upstreams w)"
  shows "sorted_wrt (\<lambda>a b. N_Name a \<le> N_Name b) (U_Nodes (Upstreams cfg ! i)) \<and>
         (\<forall>n \<in> set (U_Nodes (Upstreams cfg ! i)). \<exists>s \<in> set (u_Nodes (tracked w i)).
            included env s \<and> N_Name n = Node_Node (SE_Node s) \<and>
            N_Address n = (if AS_Address (SE_Service s) \<noteq> [] then AS_Address (SE_Service s)
                           else Node_Address (SE_Node s))) \<and>
         (\<forall>v cfg' j.
            fst (genCfg env v) = Inr cfg' \<and> j < length (upstreams v) \<and>
            mset (u_Nodes (tracked v j)) = mset (u_Nodes (tracked w i)) \<and>
            distinct (map (\<lambda>s. Node_Node (SE_Node s))
                       (filter (included env) (u_Nodes (tracked w i)))) \<longrightarrow>
            U_Nodes (Upstreams cfg' ! j) = U_Nodes (Upstreams cfg ! i))"
proof -
  have "U_Nodes (Upstreams cfg' ! j) = U_Nodes (Upstreams cfg ! i)"
    if "fst (genCfg env v) = Inr cfg'" and "j < length (upstreams v)"
      and "mset (u_Nodes (tracked v j)) = mset (u_Nodes (tracked w i))"
      and "distinct (map (\<lambda>s. Node_Node (SE_Node s))
                       (filter (included env) (u_Nodes (tracked w i))))"
    for v :: "('a, 'b) Watcher" and cfg' j
    using genCfg_permuted [OF assms(1) that(1) assms(2) that(2) that(3) [symmetric] that(4)]
    by simp
  with genCfg_sorted [OF assms] genCfg_address [OF assms] show ?thesis
    by blast
qed

theorem genCfg_sorted_by_name_witness:
  "U_Nodes (Upstreams (projr (fst (genCfg ex_env (ex_watcher (rev ex_nodes))))) ! 0) =
     U_Nodes (Upstreams (projr (fst (genCfg ex_env (ex_watcher ex_nodes)))) ! 0) \<and>
   sorted_wrt (\<lambda>a b. N_Name a \<le> N_Name b)
     (U_Nodes (Upstreams (projr (fst (genCfg ex_env (ex_watcher ex_nodes)))) ! 0)) \<and>
   U_Nodes (Upstreams (projr (fst (genCfg ex_env (ex_watcher ex_nodes)))) ! 0) =
     [\<lparr>N_Name = ''n1'', N_Address = ''192.168.0.1'', N_Port = 8080, N_Weight = 2\<rparr>,
      \<lparr>N_Name = ''n2'', N_Address = ''10.0.0.2'', N_Port = 8080, N_Weight = 1\<rparr>]"
proof -
  let ?c = "projr (fst (genCfg ex_env (ex_watcher ex_nodes)))"
  let ?c' = "projr (fst (genCfg ex_env (ex_watcher (rev ex_nodes))))"
  have d: "distinct (map (\<lambda>s. Node_Node (SE_Node s))
      (filter (included ex_env) (u_Nodes (tracked (ex_watcher ex_nodes) 0))))"
    by (simp add: ex_tracked)
       (simp add: ex_nodes_def ex_entry_def ex_env_def included_def HealthPassing_def HealthWarning_def)
  have m: "mset (u_Nodes (tracked (ex_watcher (rev ex_nodes)) 0)) =
      mset (u_Nodes (tracked (ex_watcher ex_nodes) 0))"
    by (simp add: ex_tracked)
  note t = genCfg_sorted_by_name [OF ex_genCfg ex_length, of ex_nodes]
  note s = t [THEN conjunct1]
  note p = t [THEN conjunct2, THEN conjunct2]
  from p ex_genCfg [of "rev ex_nodes"] ex_length [of "rev ex_nodes"] m d
  have e: "U_Nodes (Upstreams ?c' ! 0) = U_Nodes (Upstreams ?c ! 0)"
    by blast
  have v: "U_Nodes (Upstreams ?c ! 0) =
     [\<lparr>N_Name = ''n1'', N_Address = ''192.168.0.1'', N_Port = 8080, N_Weight = 2\<rparr>,
      \<lparr>N_Name = ''n2'', N_Address = ''10.0.0.2'', N_Port = 8080, N_Weight = 1\<rparr>]"
    by (simp add: genCfg_def ex_watcher_def New_def Let_def logf_def genUpstream_def
        ex_nodes_def ex_entry_def ex_env_def genNode_def sortSlice_def nameLess_def
        HealthPassing_def HealthWarning_def)
  from e s v show ?thesis
    by (intro conjI)
qed

text \<open>
  C9, as the claim has it, fails for two instances of one upstream on the same node, on
  different ports: \<^verbatim>\<open>sort.Slice\<close> finds nothing to swap in either order of arrival,
  so the two orders give two different node lists.
\<close>

theorem genCfg_arrival_order_counterexample:
  "mset ex_same_name = mset (rev ex_same_name) \<and>
   U_Nodes (Upstreams (projr (fst (genCfg ex_env (ex_watcher ex_same_name)))) ! 0) \<noteq>
     U_Nodes (Upstreams (projr (fst (genCfg ex_env (ex_watcher (rev ex_same_name))))) ! 0)"
  by (simp add: genCfg_def ex_watcher_def New_def Let_def logf_def genUpstream_def
        ex_same_name_def ex_entry_def ex_env_def genNode_def sortSlice_def nameLess_def
        HealthPassing_def HealthWarning_def)

subsection \<open>What each function leaves unchanged\<close>

lemma logf_fields [simp]:
  "update (logf l f w) = update w" "ready (logf l f w) = ready w" "C (logf l f w) = C w"
  "leaf (logf l f w) = leaf w" "upstreams (logf l f w) = upstreams w" "heap (logf l f w) = heap w"
  "fresh (logf l f w) = fresh w" "goroutines (logf l f w) = goroutines w"
  "downstream (logf l f w) = downstream w" "certCAs (logf l f w) = certCAs w"
  "certCAPool (logf l f w) = certCAPool w" "service (logf l f w) = service w"
  "serviceName (logf l f w) = serviceName w" "log (logf l f w) = log w @ [(l, f)]"
  by (simp_all add: logf_def)

lemma Done_fields [simp]:
  "update (Done w) = update w" "ready (Done w) = ready w - 1" "C (Done w) = C w"
  "leaf (Done w) = leaf w" "upstreams (Done w) = upstreams w" "heap (Done w) = heap w"
  "fresh (Done w) = fresh w" "goroutines (Done w) = goroutines w"
  "downstream (Done w) = downstream w" "certCAs (Done w) = certCAs w"
  "certCAPool (Done w) = certCAPool w" "log (Done w) = log w"
  by (simp_all add: Done_def)

lemma notifyChanged_fields [simp]:
  "ready (notifyChanged w) = ready w" "C (notifyChanged w) = C w"
  "leaf (notifyChanged w) = leaf w" "upstreams (notifyChanged w) = upstreams w"
  "heap (notifyChanged w) = heap w" "fresh (notifyChanged w) = fresh w"
  "goroutines (notifyChanged w) = goroutines w" "downstream (notifyChanged w) = downstream w"
  "certCAs (notifyChanged w) = certCAs w" "certCAPool (notifyChanged w) = certCAPool w"
  "log (notifyChanged w) = log w"
  by (simp_all add: notifyChanged_def split: option.splits)

lemma register_fields [simp]:
  "update (register name u loop w) = update w" "ready (register name u loop w) = ready w"
  "C (register name u loop w) = C w" "leaf (register name u loop w) = leaf w"
  "downstream (register name u loop w) = downstream w" "log (register name u loop w) = log w"
  "certCAs (register name u loop w) = certCAs w" "certCAPool (register name u loop w) = certCAPool w"
  "upstreams (register name u loop w) = AList.update name (fresh w) (upstreams w)"
  "goroutines (register name u loop w) = goroutines w @ [loop (fresh w)]"
  "heap (register name u loop w) = (heap w)(fresh w := u)"
  "fresh (register name u loop w) = fresh w + 1"
  by (simp_all add: register_def)

lemma same_core_refl [simp]: "same_core w w"
  by (simp add: same_core_def)

lemma same_core_trans: "same_core w v \<Longrightarrow> same_core v x \<Longrightarrow> same_core w x"
  by (simp add: same_core_def)

lemma same_core_logf [simp]: "same_core (logf l f w) v = same_core w v"
  by (simp add: same_core_def)

lemma startUpstreamService_core: "same_core (startUpstreamService up name w) w"
  by (simp add: startUpstreamService_def Let_def same_core_def)

lemma startUpstreamPreparedQuery_core: "same_core (startUpstreamPreparedQuery env up name w) w"
  by (simp add: startUpstreamPreparedQuery_def Let_def same_core_def split: option.splits)

lemma removeUpstream_core: "removeUpstream name w = Inr w1 \<Longrightarrow> same_core w1 w"
  by (auto simp: removeUpstream_def Let_def same_core_def split: option.splits)

lemma startIfMissing_core: "same_core (startIfMissing env up w) w"
  by (simp add: startIfMissing_def Let_def startUpstreamService_core
      startUpstreamPreparedQuery_core split: option.splits)

lemma startMissing_core: "startMissing env ups (keep, w) = (keep1, w1) \<Longrightarrow> same_core w1 w"
proof (induction ups arbitrary: keep w)
  case Nil
  then show ?case by simp
next
  case (Cons up ups)
  from Cons.prems have "same_core w1 (startIfMissing env up w)"
    by (intro Cons.IH [of "insert (upstreamKey up) keep"]) simp
  then show ?case
    using startIfMissing_core [of env up w] by (rule same_core_trans)
qed

lemma removeStale_core: "removeStale keep names w = Inr w1 \<Longrightarrow> same_core w1 w"
proof (induction names arbitrary: w)
  case Nil
  then show ?case by simp
next
  case (Cons name names)
  show ?case
  proof (cases "name \<in> keep")
    case True
    with Cons show ?thesis by simp
  next
    case False
    with Cons.prems obtain w2 where r: "removeUpstream name w = Inr w2"
      and s: "removeStale keep names w2 = Inr w1"
      by (auto split: sum.splits)
    from Cons.IH [OF s] removeUpstream_core [OF r] show ?thesis
      by (rule same_core_trans)
  qed
qed

lemma handleProxyChange_InrE:
  assumes "handleProxyChange env first srv w = Inr w1"
  obtains keep w2 w3 where
    "startMissing env (proxyUpstreams srv)
       ({}, w\<lparr>downstream := configureDownstream srv (downstream w)\<rparr>) = (keep, w2)"
    and "removeStale keep (map fst (upstreams w2)) w2 = Inr w3"
    and "w1 = (if first then Done w3 else w3)"
proof -
  let ?w0 = "w\<lparr>downstream := configureDownstream srv (downstream w)\<rparr>"
  have eq: "(case S_Proxy srv of None \<Rightarrow> ({}, ?w0)
             | Some p \<Rightarrow> startMissing env (P_Upstreams p) ({}, ?w0)) =
            startMissing env (proxyUpstreams srv) ({}, ?w0)"
    by (simp add: proxyUpstreams_def split: option.splits)
  obtain keep w2 where k: "startMissing env (proxyUpstreams srv) ({}, ?w0) = (keep, w2)"
    by (metis surj_pair)
  from assms have "(case removeStale keep (map fst (upstreams w2)) w2 of
      Inl p \<Rightarrow> Inl p | Inr w \<Rightarrow> Inr (if first then Done w else w)) = Inr w1"
    unfolding handleProxyChange_def Let_def eq k by simp
  then obtain w3 where "removeStale keep (map fst (upstreams w2)) w2 = Inr w3"
    and "w1 = (if first then Done w3 else w3)"
    by (auto split: sum.splits)
  with k show thesis
    by (rule that)
qed

lemma handleProxyChange_core:
  assumes "handleProxyChange env first srv w = Inr w1"
  shows "same_core w1 (if first then Done w else w)"
proof -
  from assms obtain keep w2 w3 where
    k: "startMissing env (proxyUpstreams srv)
       ({}, w\<lparr>downstream := configureDownstream srv (downstream w)\<rparr>) = (keep, w2)"
    and r: "removeStale keep (map fst (upstreams w2)) w2 = Inr w3"
    and e: "w1 = (if first then Done w3 else w3)"
    by (rule handleProxyChange_InrE)
  have "same_core w3 w2"
    by (rule removeStale_core [OF r])
  moreover have "same_core w2 (w\<lparr>downstream := configureDownstream srv (downstream w)\<rparr>)"
    by (rule startMissing_core [OF k])
  ultimately have "same_core w3 w"
    by (simp add: same_core_def)
  then show ?thesis
    by (simp add: e same_core_def)
qed

lemma handlePort_core:
  "handlePort first srv w = Inr w1 \<Longrightarrow> same_core w1 (if first then Done w else w)"
  by (auto simp: handlePort_def Let_def same_core_def)

lemma addRoots_fields [simp]:
  "update (addRoots env pems w) = update w" "ready (addRoots env pems w) = ready w"
  "C (addRoots env pems w) = C w" "leaf (addRoots env pems w) = leaf w"
  by (induction pems arbitrary: w) (simp_all add: Let_def)

subsection \<open>The update channel\<close>

lemma chan_ok_cong: "update w = update v \<Longrightarrow> chan_ok w = chan_ok v"
  by (simp add: chan_ok_def)

lemma chan_ok_core: "same_core w v \<Longrightarrow> chan_ok w = chan_ok v"
  by (simp add: chan_ok_def same_core_def)

lemma chan_ok_logf [simp]: "chan_ok (logf l f w) = chan_ok w"
  by (simp add: chan_ok_def)

lemma chan_ok_Done [simp]: "chan_ok (Done w) = chan_ok w"
  by (simp add: chan_ok_def)

lemma update_notifyChanged:
  "chan_ok w \<Longrightarrow> update (notifyChanged w) = \<lparr>cap = 1, buf = 1\<rparr>"
  by (cases "update w") (auto simp: chan_ok_def notifyChanged_def send_def)

lemma chan_ok_notifyChanged: "chan_ok w \<Longrightarrow> chan_ok (notifyChanged w)"
  by (simp add: chan_ok_def update_notifyChanged)

lemma notifyChanged_pending:
  "update w = \<lparr>cap = 1, buf = 1\<rparr> \<Longrightarrow> notifyChanged w = w"
  by (simp add: notifyChanged_def send_def)

lemma notifyChanged_funpow:
  assumes "chan_ok w" and "0 < N"
  shows "(notifyChanged ^^ N) w = w\<lparr>update := \<lparr>cap = 1, buf = 1\<rparr>\<rparr>"
  using assms(2)
proof (induction N)
  case 0
  then show ?case by simp
next
  case (Suc N)
  have one: "notifyChanged w = w\<lparr>update := \<lparr>cap = 1, buf = 1\<rparr>\<rparr>"
    using assms(1) by (cases "update w") (auto simp: chan_ok_def notifyChanged_def send_def)
  show ?case
  proof (cases "N = 0")
    case True
    then show ?thesis by (simp add: one)
  next
    case False
    with Suc.IH have "(notifyChanged ^^ N) w = w\<lparr>update := \<lparr>cap = 1, buf = 1\<rparr>\<rparr>"
      by simp
    then show ?thesis
      by (simp add: notifyChanged_pending)
  qed
qed

lemma chan_ok_notifyChanged_iff [simp]: "chan_ok (notifyChanged w) = chan_ok w"
  by (auto simp: chan_ok_def notifyChanged_def send_def)

lemma chan_ok_addRoots [simp]: "chan_ok (addRoots env pems w) = chan_ok w"
  by (simp add: chan_ok_def)

lemma chan_ok_fields [simp]:
  "chan_ok (w\<lparr>heap := h\<rparr>) = chan_ok w" "chan_ok (w\<lparr>leaf := lf\<rparr>) = chan_ok w"
  "chan_ok (w\<lparr>certCAs := cs\<rparr>) = chan_ok w" "chan_ok (w\<lparr>certCAPool := cp\<rparr>) = chan_ok w"
  "chan_ok (w\<lparr>goroutines := gs\<rparr>) = chan_ok w" "chan_ok (w\<lparr>C := out\<rparr>) = chan_ok w"
  "chan_ok (w\<lparr>downstream := d\<rparr>) = chan_ok w"
  by (simp_all add: chan_ok_def)

subsection \<open>One turn of each loop: the wait group, the output and the channel\<close>

lemma at_first_range: "0 \<le> at_first l" "at_first l \<le> 1"
  by (simp_all add: at_first_def)

lemma at_first_0 [simp]: "(at_first l = 0) = (\<not> p_first l)"
  by (simp add: at_first_def)

lemma watchCA_iter_barrier:
  assumes "watchCA_iter env r (l, w) = (l1, w1)"
  shows "C w1 = C w"
    and "chan_ok w1 = chan_ok w"
    and "ready w1 - at_first l1 = ready w - at_first l"
    and "at_first l1 \<le> at_first l"
    and "p_first l \<Longrightarrow> \<not> p_first l1 \<Longrightarrow> \<exists>x m. r = Got x m"
  using assms
  by (auto simp: watchCA_iter_def Let_def at_first_def split: response.splits if_splits)

lemma watchLeaf_iter_barrier:
  assumes "watchLeaf_iter r (l, w) = (l1, w1)"
  shows "C w1 = C w"
    and "chan_ok w1 = chan_ok w"
    and "ready w1 - at_first l1 = ready w - at_first l"
    and "at_first l1 \<le> at_first l"
    and "p_first l \<Longrightarrow> \<not> p_first l1 \<Longrightarrow> \<exists>x m. r = Got x m"
  using assms
  by (auto simp: watchLeaf_iter_def Let_def at_first_def split: response.splits if_splits)

lemma watchService_iter_first:
  assumes "watchService_iter handler r (l, w) = Inr (l1, w1)"
  shows "at_first l1 \<le> at_first l"
    and "p_first l \<Longrightarrow> \<not> p_first l1 \<Longrightarrow> \<exists>x m. r = Got x m"
  using assms
  by (auto simp: watchService_iter_def Let_def at_first_def
      split: response.splits if_splits sum.splits)

lemma watchService_iter_barrier:
  assumes it: "watchService_iter handler r (l, w) = Inr (l1, w1)"
    and h: "\<And>first srv w w1. handler first srv w = Inr w1 \<Longrightarrow>
                same_core w1 (if first then Done w else w)"
  shows "C w1 = C w \<and> chan_ok w1 = chan_ok w \<and> leaf w1 = leaf w \<and>
         ready w - at_first l \<le> ready w1 - at_first l1"
proof (cases r)
  case Failed
  with it show ?thesis
    by (auto simp: watchService_iter_def at_first_def)
next
  case (Got srv meta)
  show ?thesis
  proof (cases "p_lastSeen l \<noteq> LastContentHash meta")
    case False
    with it Got show ?thesis
      by (auto simp: watchService_iter_def Let_def at_first_def)
  next
    case True
    with it Got obtain w2 where
      r: "handler (p_first l) srv (logf Debug ''consul: service %s changed'' w) = Inr w2"
      and e: "w1 = notifyChanged w2" "l1 = l\<lparr>p_lastSeen := LastContentHash meta, p_first := False\<rparr>"
      by (auto simp: watchService_iter_def Let_def split: sum.splits)
    let ?v = "logf Debug ''consul: service %s changed'' w"
    have sc: "same_core w2 (if p_first l then Done ?v else ?v)"
      by (rule h [OF r])
    then have "chan_ok w2 = chan_ok w"
      using chan_ok_core [OF sc] by (simp split: if_splits)
    moreover from sc have "C w2 = C w" and "leaf w2 = leaf w"
      and "ready w2 = ready w - at_first l"
      by (auto simp: same_core_def at_first_def split: if_splits)
    ultimately show ?thesis
      by (simp add: e at_first_def)
  qed
qed

lemma serviceLoop_answer_barrier:
  assumes "serviceLoop_answer r (g, w) = (g1, w1)"
  shows "C w1 = C w" and "chan_ok w1 = chan_ok w" and "ready w1 = ready w" and "leaf w1 = leaf w"
    and "upstreams w1 = upstreams w" and "fresh w1 = fresh w" and "goroutines w1 = goroutines w"
    and "s_u g1 = s_u g"
  using assms by (auto simp: serviceLoop_answer_def Let_def split: response.splits if_splits)

lemma preparedQueryLoop_answer_barrier:
  assumes "preparedQueryLoop_answer r (g, w) = (g1, w1)"
  shows "C w1 = C w" and "chan_ok w1 = chan_ok w" and "ready w1 = ready w" and "leaf w1 = leaf w"
    and "upstreams w1 = upstreams w" and "fresh w1 = fresh w" and "goroutines w1 = goroutines w"
    and "q_u g1 = q_u g"
  using assms
  by (auto simp: preparedQueryLoop_answer_def Let_def split: response.splits if_splits)

lemma upstream_head_barrier:
  "C (upstream_head n w) = C w" "chan_ok (upstream_head n w) = chan_ok w"
  "ready (upstream_head n w) = ready w" "leaf (upstream_head n w) = leaf w"
  "upstreams (upstream_head n w) = upstreams w" "fresh (upstream_head n w) = fresh w"
  "heap (upstream_head n w) = heap w" "update (upstream_head n w) = update w"
  by (simp_all add: upstream_head_def split: goroutine.splits)

lemma upstream_answer_barrier:
  "C (upstream_answer n r w) = C w" "chan_ok (upstream_answer n r w) = chan_ok w"
  "ready (upstream_answer n r w) = ready w" "leaf (upstream_answer n r w) = leaf w"
  "upstreams (upstream_answer n r w) = upstreams w" "fresh (upstream_answer n r w) = fresh w"
  by (auto simp: upstream_answer_def split: goroutine.splits prod.splits
      dest: serviceLoop_answer_barrier preparedQueryLoop_answer_barrier)

lemma chan_ok_recv: "chan_ok w \<Longrightarrow> recv (update w) = Some c \<Longrightarrow> c = make_chan 1"
  by (cases "update w") (auto simp: chan_ok_def recv_def make_chan_def split: if_splits)

lemma genCfg_snd: "snd (genCfg env w) =
   logf Debug ''done generating configuration, instances: %d/%d total''
     (logf Debug ''generating configuration for service %s[%s]...'' w)"
  by (simp add: genCfg_def Let_def split: option.splits)

subsection \<open>The invariant of a run\<close>

lemma pending_watches_fields [simp]:
  "pending_watches (s\<lparr>watcher := w\<rparr>) = pending_watches s"
  "pending_watches (s\<lparr>main := m\<rparr>) = pending_watches s"
  "pending_watches (s\<lparr>crashed := c\<rparr>) = pending_watches s"
  "pending_watches (s\<lparr>caLoop := l\<rparr>) = pending_watches s - at_first (caLoop s) + at_first l"
  "pending_watches (s\<lparr>leafLoop := l\<rparr>) = pending_watches s - at_first (leafLoop s) + at_first l"
  "pending_watches (s\<lparr>proxyLoop := h\<rparr>) = pending_watches s - at_first (proxyLoop s) + at_first h"
  "pending_watches (s\<lparr>portLoop := h\<rparr>) = pending_watches s - at_first (portLoop s) + at_first h"
  by (simp_all add: pending_watches_def)

lemma pending_watches_bounds:
  "0 \<le> pending_watches s"
  "at_first (caLoop s) \<le> pending_watches s" "at_first (leafLoop s) \<le> pending_watches s"
  "at_first (proxyLoop s) \<le> pending_watches s" "at_first (portLoop s) \<le> pending_watches s"
  using at_first_range(1) [of "caLoop s"] at_first_range(1) [of "leafLoop s"]
    at_first_range(1) [of "proxyLoop s"] at_first_range(1) [of "portLoop s"]
  by (simp_all add: pending_watches_def)

lemma pending_watches_0:
  "(pending_watches s = 0) =
     (\<not> p_first (caLoop s) \<and> \<not> p_first (leafLoop s) \<and> \<not> p_first (proxyLoop s) \<and>
      \<not> p_first (portLoop s))"
  by (auto simp: pending_watches_def at_first_def)

lemma barrier_inv_Run:
  assumes "Run proxyID svc (New name) = Inr s0"
  shows "barrier_inv s0" and "pending_watches s0 = 4" and "crashed s0 = None"
    and "main s0 = Waiting"
  using assms
  by (auto simp: Run_def Let_def barrier_inv_def pending_watches_def at_first_def New_def
      chan_ok_def make_chan_def logf_def split: option.splits)

lemma barrier_inv_Run_iter: "barrier_inv s \<Longrightarrow> barrier_inv (Run_iter env s)"
proof -
  assume i: "barrier_inv s"
  show ?thesis
  proof (cases "main s")
    case Waiting
    with i pending_watches_bounds(1) [of s] show ?thesis
      by (auto simp: Run_iter_def barrier_inv_def)
  next
    case Ranging
    show ?thesis
    proof (cases "recv (update (watcher s))")
      case None
      with i Ranging show ?thesis by (simp add: Run_iter_def)
    next
      case (Some c)
      with i have c: "c = make_chan 1"
        by (auto simp: barrier_inv_def dest: chan_ok_recv)
      obtain res w where g: "genCfg env ((watcher s)\<lparr>update := c\<rparr>) = (res, w)"
        by (metis surj_pair)
      then have w: "w = logf Debug ''done generating configuration, instances: %d/%d total''
          (logf Debug ''generating configuration for service %s[%s]...'' ((watcher s)\<lparr>update := c\<rparr>))"
        using genCfg_snd [of env "(watcher s)\<lparr>update := c\<rparr>"] by simp
      from i Ranging Some g show ?thesis
        by (cases res)
           (simp_all add: Run_iter_def barrier_inv_def w c chan_ok_def make_chan_def)
    qed
  qed
qed

lemma barrier_inv_crashed [simp]: "barrier_inv (s\<lparr>crashed := c\<rparr>) = barrier_inv s"
  by (simp add: barrier_inv_def)

lemma barrier_inv_step: "barrier_inv s \<Longrightarrow> barrier_inv (step env ev s)"
proof -
  assume i: "barrier_inv s"
  show ?thesis
  proof (cases "crashed s \<noteq> None")
    case True
    with i show ?thesis by (simp add: step_def)
  next
    case False
    show ?thesis
    proof (cases ev)
      case (CA r)
      obtain l w where e: "watchCA_iter env r (caLoop s, watcher s) = (l, w)"
        by (metis surj_pair)
      from watchCA_iter_barrier(1-4) [OF e] i pending_watches_bounds [of s] at_first_range(1) [of l]
      have "barrier_inv (s\<lparr>caLoop := l, watcher := w\<rparr>)"
        by (auto simp: barrier_inv_def)
      with False CA e show ?thesis
        by (simp add: step_def)
    next
      case (Leaf r)
      obtain l w where e: "watchLeaf_iter r (leafLoop s, watcher s) = (l, w)"
        by (metis surj_pair)
      from watchLeaf_iter_barrier(1-4) [OF e] i pending_watches_bounds [of s] at_first_range(1) [of l]
      have "barrier_inv (s\<lparr>leafLoop := l, watcher := w\<rparr>)"
        by (auto simp: barrier_inv_def)
      with False Leaf e show ?thesis
        by (simp add: step_def)
    next
      case (Proxy r)
      show ?thesis
      proof (cases "watchService_iter (handleProxyChange env) r (proxyLoop s, watcher s)")
        case (Inl p)
        with i False Proxy show ?thesis
          by (simp add: step_def)
      next
        case (Inr lw)
        then obtain l w where
          e: "watchService_iter (handleProxyChange env) r (proxyLoop s, watcher s) = Inr (l, w)"
          by (cases lw) simp
        have "C w = C (watcher s) \<and> chan_ok w = chan_ok (watcher s) \<and>
            leaf w = leaf (watcher s) \<and>
            ready (watcher s) - at_first (proxyLoop s) \<le> ready w - at_first l"
          by (rule watchService_iter_barrier [OF e]) (rule handleProxyChange_core)
        with watchService_iter_first(1) [OF e] i pending_watches_bounds [of s] at_first_range(1) [of l]
        have "barrier_inv (s\<lparr>proxyLoop := l, watcher := w\<rparr>)"
          by (auto simp: barrier_inv_def)
        with False Proxy e show ?thesis
          by (simp add: step_def)
      qed
    next
      case (Port r)
      show ?thesis
      proof (cases "watchService_iter handlePort r (portLoop s, watcher s)")
        case (Inl p)
        with i False Port show ?thesis
          by (simp add: step_def)
      next
        case (Inr lw)
        then obtain l w where
          e: "watchService_iter handlePort r (portLoop s, watcher s) = Inr (l, w)"
          by (cases lw) simp
        have "C w = C (watcher s) \<and> chan_ok w = chan_ok (watcher s) \<and>
            leaf w = leaf (watcher s) \<and>
            ready (watcher s) - at_first (portLoop s) \<le> ready w - at_first l"
          by (rule watchService_iter_barrier [OF e]) (rule handlePort_core)
        with watchService_iter_first(1) [OF e] i pending_watches_bounds [of s] at_first_range(1) [of l]
        have "barrier_inv (s\<lparr>portLoop := l, watcher := w\<rparr>)"
          by (auto simp: barrier_inv_def)
        with False Port e show ?thesis
          by (simp add: step_def)
      qed
    next
      case (Head n)
      with i False show ?thesis
        by (simp add: step_def barrier_inv_def upstream_head_barrier)
    next
      case (Answer n r)
      with i False show ?thesis
        by (simp add: step_def barrier_inv_def upstream_answer_barrier)
    next
      case Main
      with i False show ?thesis
        by (simp add: step_def barrier_inv_Run_iter)
    qed
  qed
qed

subsection \<open>Runs\<close>

lemma run_snoc: "run env (evs @ [ev]) s = step env ev (run env evs s)"
  by (simp add: run_def)

lemma run_Nil [simp]: "run env [] s = s"
  by (simp add: run_def)

lemma run_Cons: "run env (ev # evs) s = run env evs (step env ev s)"
  by (simp add: run_def)

lemma barrier_inv_run: "barrier_inv s \<Longrightarrow> barrier_inv (run env evs s)"
  by (induction evs rule: rev_induct) (simp_all add: run_snoc barrier_inv_step)

lemma Run_iter_loops [simp]:
  "caLoop (Run_iter env s) = caLoop s" "leafLoop (Run_iter env s) = leafLoop s"
  "proxyLoop (Run_iter env s) = proxyLoop s" "portLoop (Run_iter env s) = portLoop s"
  by (simp_all add: Run_iter_def split: pc.splits option.splits prod.splits sum.splits)

text \<open>A loop leaves its first turn only by an answer without error to its own query.\<close>

lemma step_first_CA:
  assumes "p_first (caLoop s)" and "\<not> p_first (caLoop (step env ev s))"
  shows "\<exists>x m. ev = CA (Got x m)"
proof (cases ev)
  case (CA r)
  obtain l w where e: "watchCA_iter env r (caLoop s, watcher s) = (l, w)"
    by (metis surj_pair)
  with assms CA have "\<not> p_first l"
    by (simp add: step_def split: if_splits)
  with watchCA_iter_barrier(5) [OF e] assms(1) CA show ?thesis
    by simp
qed (use assms in \<open>auto simp: step_def split: if_splits prod.splits sum.splits\<close>)

lemma step_first_Leaf:
  assumes "p_first (leafLoop s)" and "\<not> p_first (leafLoop (step env ev s))"
  shows "\<exists>x m. ev = Leaf (Got x m)"
proof (cases ev)
  case (Leaf r)
  obtain l w where e: "watchLeaf_iter r (leafLoop s, watcher s) = (l, w)"
    by (metis surj_pair)
  with assms Leaf have "\<not> p_first l"
    by (simp add: step_def split: if_splits)
  with watchLeaf_iter_barrier(5) [OF e] assms(1) Leaf show ?thesis
    by simp
qed (use assms in \<open>auto simp: step_def split: if_splits prod.splits sum.splits\<close>)

lemma step_first_Proxy:
  assumes "p_first (proxyLoop s)" and "\<not> p_first (proxyLoop (step env ev s))"
  shows "\<exists>x m. ev = Proxy (Got x m)"
proof (cases ev)
  case (Proxy r)
  with assms obtain l w where
    e: "watchService_iter (handleProxyChange env) r (proxyLoop s, watcher s) = Inr (l, w)"
    and "\<not> p_first l"
    by (auto simp: step_def split: if_splits sum.splits)
  with watchService_iter_first(2) [OF e] assms(1) Proxy show ?thesis
    by simp
qed (use assms in \<open>auto simp: step_def split: if_splits prod.splits sum.splits\<close>)

lemma step_first_Port:
  assumes "p_first (portLoop s)" and "\<not> p_first (portLoop (step env ev s))"
  shows "\<exists>x m. ev = Port (Got x m)"
proof (cases ev)
  case (Port r)
  with assms obtain l w where
    e: "watchService_iter handlePort r (portLoop s, watcher s) = Inr (l, w)"
    and "\<not> p_first l"
    by (auto simp: step_def split: if_splits sum.splits)
  with watchService_iter_first(2) [OF e] assms(1) Port show ?thesis
    by simp
qed (use assms in \<open>auto simp: step_def split: if_splits prod.splits sum.splits\<close>)

lemma run_first_CA:
  "p_first (caLoop s) \<Longrightarrow> \<not> p_first (caLoop (run env evs s)) \<Longrightarrow> \<exists>x m. CA (Got x m) \<in> set evs"
proof (induction evs rule: rev_induct)
  case Nil
  then show ?case by simp
next
  case (snoc ev evs)
  show ?case
  proof (cases "p_first (caLoop (run env evs s))")
    case True
    with snoc.prems(2) step_first_CA [of "run env evs s" env ev] show ?thesis
      by (auto simp: run_snoc)
  next
    case False
    with snoc show ?thesis by auto
  qed
qed

lemma run_first_Leaf:
  "p_first (leafLoop s) \<Longrightarrow> \<not> p_first (leafLoop (run env evs s)) \<Longrightarrow>
   \<exists>x m. Leaf (Got x m) \<in> set evs"
proof (induction evs rule: rev_induct)
  case Nil
  then show ?case by simp
next
  case (snoc ev evs)
  show ?case
  proof (cases "p_first (leafLoop (run env evs s))")
    case True
    with snoc.prems(2) step_first_Leaf [of "run env evs s" env ev] show ?thesis
      by (auto simp: run_snoc)
  next
    case False
    with snoc show ?thesis by auto
  qed
qed

lemma run_first_Proxy:
  "p_first (proxyLoop s) \<Longrightarrow> \<not> p_first (proxyLoop (run env evs s)) \<Longrightarrow>
   \<exists>x m. Proxy (Got x m) \<in> set evs"
proof (induction evs rule: rev_induct)
  case Nil
  then show ?case by simp
next
  case (snoc ev evs)
  show ?case
  proof (cases "p_first (proxyLoop (run env evs s))")
    case True
    with snoc.prems(2) step_first_Proxy [of "run env evs s" env ev] show ?thesis
      by (auto simp: run_snoc)
  next
    case False
    with snoc show ?thesis by auto
  qed
qed

lemma run_first_Port:
  "p_first (portLoop s) \<Longrightarrow> \<not> p_first (portLoop (run env evs s)) \<Longrightarrow>
   \<exists>x m. Port (Got x m) \<in> set evs"
proof (induction evs rule: rev_induct)
  case Nil
  then show ?case by simp
next
  case (snoc ev evs)
  show ?case
  proof (cases "p_first (portLoop (run env evs s))")
    case True
    with snoc.prems(2) step_first_Port [of "run env evs s" env ev] show ?thesis
      by (auto simp: run_snoc)
  next
    case False
    with snoc show ?thesis by auto
  qed
qed

lemma Run_first:
  assumes "Run proxyID svc (New name) = Inr s0"
  shows "p_first (caLoop s0)" "p_first (leafLoop s0)" "p_first (proxyLoop s0)"
    "p_first (portLoop s0)"
  using assms by (auto simp: Run_def Let_def split: option.splits)

text \<open>One turn of \<^verbatim>\<open>Run\<close> past the wait, with a signal in the channel: the signal is
  taken and \<^verbatim>\<open>genCfg\<close> runs once, and sends its configuration or panics.\<close>

lemma genCfg_fst:
  "fst (genCfg env w) =
     (case leaf w of
        None \<Rightarrow> Inl NilPointerDereference
      | Some lf \<Rightarrow> fst (genCfg env w))"
  by (simp add: genCfg_def Let_def split: option.splits)

lemma genCfg_Inl_iff: "isl (fst (genCfg env w)) = (leaf w = None)"
  by (simp add: genCfg_def Let_def split: option.splits)

lemma Run_iter_drain:
  assumes "main s = Ranging" and "update (watcher s) = \<lparr>cap = 1, buf = 1\<rparr>"
  shows "C (watcher (Run_iter env s)) =
           C (watcher s) @
             (case fst (genCfg env ((watcher s)\<lparr>update := \<lparr>cap = 1, buf = 0\<rparr>\<rparr>)) of
                Inl p \<Rightarrow> [] | Inr cfg \<Rightarrow> [cfg])"
    and "crashed (Run_iter env s) =
           (case fst (genCfg env ((watcher s)\<lparr>update := \<lparr>cap = 1, buf = 0\<rparr>\<rparr>)) of
              Inl p \<Rightarrow> Some p | Inr cfg \<Rightarrow> crashed s)"
    and "log (watcher (Run_iter env s)) =
           log (watcher s) @
             [(Debug, ''generating configuration for service %s[%s]...''),
              (Debug, ''done generating configuration, instances: %d/%d total'')]"
    and "update (watcher (Run_iter env s)) = \<lparr>cap = 1, buf = 0\<rparr>"
    and "main (Run_iter env s) = Ranging"
    and "leaf (watcher (Run_iter env s)) = leaf (watcher s)"
proof -
  define c where "c = \<lparr>cap = 1, buf = (0::nat)\<rparr>"
  have r: "recv (update (watcher s)) = Some c"
    by (simp add: assms(2) recv_def c_def)
  obtain res w where g: "genCfg env ((watcher s)\<lparr>update := c\<rparr>) = (res, w)"
    by (metis surj_pair)
  then have w: "w = logf Debug ''done generating configuration, instances: %d/%d total''
      (logf Debug ''generating configuration for service %s[%s]...''
         ((watcher s)\<lparr>update := c\<rparr>))"
    using genCfg_snd [of env "(watcher s)\<lparr>update := c\<rparr>"] by simp
  have it: "Run_iter env s =
      (case res of Inl p \<Rightarrow> s\<lparr>watcher := w, crashed := Some p\<rparr>
       | Inr cfg \<Rightarrow> s\<lparr>watcher := w\<lparr>C := C w @ [cfg]\<rparr>\<rparr>)"
    by (simp add: Run_iter_def assms(1) r g split: sum.splits)
  have f: "fst (genCfg env ((watcher s)\<lparr>update := c\<rparr>)) = res"
    by (simp add: g)
  show "C (watcher (Run_iter env s)) =
           C (watcher s) @
             (case fst (genCfg env ((watcher s)\<lparr>update := \<lparr>cap = 1, buf = 0\<rparr>\<rparr>)) of
                Inl p \<Rightarrow> [] | Inr cfg \<Rightarrow> [cfg])"
    unfolding c_def [symmetric] f it by (cases res) (simp_all add: w)
  show "crashed (Run_iter env s) =
           (case fst (genCfg env ((watcher s)\<lparr>update := \<lparr>cap = 1, buf = 0\<rparr>\<rparr>)) of
              Inl p \<Rightarrow> Some p | Inr cfg \<Rightarrow> crashed s)"
    unfolding c_def [symmetric] f it by (cases res) simp_all
  show "log (watcher (Run_iter env s)) =
           log (watcher s) @
             [(Debug, ''generating configuration for service %s[%s]...''),
              (Debug, ''done generating configuration, instances: %d/%d total'')]"
    unfolding it by (cases res) (simp_all add: w)
  show "update (watcher (Run_iter env s)) = \<lparr>cap = 1, buf = 0\<rparr>"
    unfolding it by (cases res) (simp_all add: w c_def)
  show "main (Run_iter env s) = Ranging"
    unfolding it by (cases res) (simp_all add: assms(1))
  show "leaf (watcher (Run_iter env s)) = leaf (watcher s)"
    unfolding it by (cases res) (simp_all add: w)
qed

lemma Run_iter_blocked:
  "main s = Ranging \<Longrightarrow> buf (update (watcher s)) = 0 \<Longrightarrow> Run_iter env s = s"
  by (simp add: Run_iter_def recv_def)

text \<open>After that turn, further turns of \<^verbatim>\<open>Run\<close> change nothing: the process has ended
  in the panic, or \<^verbatim>\<open>Run\<close> blocks on the empty channel.\<close>

lemma run_Main_idle:
  assumes "main s = Ranging" and "buf (update (watcher s)) = 0"
  shows "run env (replicate k Main) s = s"
proof (induction k)
  case 0
  show ?case by simp
next
  case (Suc k)
  have "step env Main s = s"
    using assms by (simp add: step_def Run_iter_blocked)
  with Suc show ?case
    by (simp add: run_Cons)
qed

lemma step_Main_drain:
  assumes "main s = Ranging" and "crashed s = None" and "update (watcher s) = \<lparr>cap = 1, buf = 1\<rparr>"
    and "0 < k"
  shows "run env (replicate k Main) s = Run_iter env s"
proof -
  obtain j where k: "k = Suc j"
    using assms(4) by (cases k) auto
  have "run env (replicate k Main) s = run env (replicate j Main) (Run_iter env s)"
    by (simp add: k run_Cons step_def assms(2))
  also have "\<dots> = Run_iter env s"
    using Run_iter_drain(4,5) [OF assms(1,3), of env]
    by (intro run_Main_idle) simp_all
  finally show ?thesis .
qed

subsection \<open>The change notifier\<close>

text \<open>
  C2. The update channel is made with capacity one, and in every state of a run it has
  capacity one and holds at most one signal, so at most one regeneration is pending.
  In any such state, \<open>N \<ge> 1\<close> calls of \<^verbatim>\<open>notifyChanged\<close> leave exactly one signal in the
  channel; each call returns (it is a function of the state: the \<^verbatim>\<open>select\<close> has a
  default), and a call with a signal pending changes nothing. When \<^verbatim>\<open>Run\<close> is past the
  wait, any number \<open>k \<ge> 1\<close> of turns of \<^verbatim>\<open>Run\<close> after the \<open>N\<close> calls takes the one signal,
  leaves the channel empty and runs \<^verbatim>\<open>genCfg\<close> once (its two log lines appear once): one
  configuration is sent when the leaf is there, and the process ends in the panic of
  \<^verbatim>\<open>genCfg\<close>, with nothing sent, when it is not.
\<close>

theorem notifyChanged_coalesces:
  assumes "Run proxyID svc (New name) = Inr s0" and "s = run env evs s0"
    and "0 < N" and "0 < k"
  shows "update (New name :: ('c, 'r) Watcher) = \<lparr>cap = 1, buf = 0\<rparr> \<and>
         cap (update (watcher s)) = 1 \<and> buf (update (watcher s)) \<le> 1 \<and>
         update ((notifyChanged ^^ N) (watcher s)) = \<lparr>cap = 1, buf = 1\<rparr> \<and>
         notifyChanged ((notifyChanged ^^ N) (watcher s)) = (notifyChanged ^^ N) (watcher s) \<and>
         (main s = Ranging \<and> crashed s = None \<longrightarrow>
            (let g = fst (genCfg env ((watcher s)\<lparr>update := \<lparr>cap = 1, buf = 0\<rparr>\<rparr>));
                 t = run env (replicate k Main) (s\<lparr>watcher := (notifyChanged ^^ N) (watcher s)\<rparr>)
             in C (watcher t) = C (watcher s) @ (case g of Inl p \<Rightarrow> [] | Inr cfg \<Rightarrow> [cfg]) \<and>
                crashed t = (case g of Inl p \<Rightarrow> Some p | Inr cfg \<Rightarrow> None) \<and>
                isl g = (leaf (watcher s) = None) \<and>
                log (watcher t) =
                  log (watcher s) @
                    [(Debug, ''generating configuration for service %s[%s]...''),
                     (Debug, ''done generating configuration, instances: %d/%d total'')] \<and>
                update (watcher t) = \<lparr>cap = 1, buf = 0\<rparr>))"
proof -
  let ?w = "(notifyChanged ^^ N) (watcher s)"
  let ?s = "s\<lparr>watcher := ?w\<rparr>"
  have ok: "chan_ok (watcher s)"
    using barrier_inv_run [OF barrier_inv_Run(1) [OF assms(1)], of env evs] assms(2)
    by (simp add: barrier_inv_def)
  have w: "?w = (watcher s)\<lparr>update := \<lparr>cap = 1, buf = 1\<rparr>\<rparr>"
    by (rule notifyChanged_funpow [OF ok assms(3)])
  have u: "update ?w = \<lparr>cap = 1, buf = 1\<rparr>"
    by (simp add: w)
  have new: "update (New name :: ('c, 'r) Watcher) = \<lparr>cap = 1, buf = 0\<rparr>"
    by (simp add: New_def make_chan_def)
  have drain: "(let g = fst (genCfg env ((watcher s)\<lparr>update := \<lparr>cap = 1, buf = 0\<rparr>\<rparr>));
                 t = run env (replicate k Main) ?s
             in C (watcher t) = C (watcher s) @ (case g of Inl p \<Rightarrow> [] | Inr cfg \<Rightarrow> [cfg]) \<and>
                crashed t = (case g of Inl p \<Rightarrow> Some p | Inr cfg \<Rightarrow> None) \<and>
                isl g = (leaf (watcher s) = None) \<and>
                log (watcher t) =
                  log (watcher s) @
                    [(Debug, ''generating configuration for service %s[%s]...''),
                     (Debug, ''done generating configuration, instances: %d/%d total'')] \<and>
                update (watcher t) = \<lparr>cap = 1, buf = 0\<rparr>)"
    if m: "main s = Ranging" and c: "crashed s = None"
  proof -
    have m': "main ?s = Ranging" and c': "crashed ?s = None"
      and u': "update (watcher ?s) = \<lparr>cap = 1, buf = 1\<rparr>"
      by (simp_all add: m c u)
    have e: "(watcher ?s)\<lparr>update := \<lparr>cap = 1, buf = 0\<rparr>\<rparr> =
        (watcher s)\<lparr>update := \<lparr>cap = 1, buf = 0\<rparr>\<rparr>"
      by (simp add: w)
    have r: "run env (replicate k Main) ?s = Run_iter env ?s"
      by (rule step_Main_drain [OF m' c' u' assms(4)])
    note d = Run_iter_drain [OF m' u', of env, unfolded e]
    have cr: "crashed (Run_iter env ?s) =
        (case fst (genCfg env ((watcher s)\<lparr>update := \<lparr>cap = 1, buf = 0\<rparr>\<rparr>)) of
           Inl p \<Rightarrow> Some p | Inr cfg \<Rightarrow> None)"
      using d(2) c' by (simp split: sum.splits)
    have "C (watcher ?s) = C (watcher s)" "log (watcher ?s) = log (watcher s)"
      by (simp_all add: w)
    with d(1,3,4) cr genCfg_Inl_iff [of env "(watcher s)\<lparr>update := \<lparr>cap = 1, buf = 0\<rparr>\<rparr>"]
    show ?thesis
      unfolding Let_def r by simp
  qed
  from ok u new notifyChanged_pending [OF u] drain show ?thesis
    unfolding chan_ok_def by blast
qed

lemmas ex_defs = run_def step_def Run_iter_def Run_def New_def ex_start_def ex_trace_def ex_meta_def
  ex_service_def ex_sidecar_def ex_upstream_api_def ex_env_def watchCA_iter_def watchLeaf_iter_def
  watchService_iter_def upstream_head_def upstream_answer_def serviceLoop_head_def
  serviceLoop_answer_def preparedQueryLoop_head_def preparedQueryLoop_answer_def
  handleProxyChange_def handlePort_def configureDownstream_def applyConfig_def
  startIfMissing_def startUpstreamService_def startUpstreamPreparedQuery_def register_def removeUpstream_def
  newUpstream_def upstreamKey_def Done_def notifyChanged_def send_def recv_def make_chan_def logf_def
  genCfg_def genUpstream_def genNode_def sortSlice_def nameLess_def Let_def asString_def asBool_def
  UpstreamDestTypePreparedQuery_def defaultDownstreamBindAddr_def defaultUpstreamBindAddr_def
  zero_upstream_def errorWaitTime_def second_def

lemma ex_Run: "Run (Some ''web-sidecar-proxy'') (Some ex_service) (New ''web'') = Inr ex_start"
  by (simp add: ex_start_def Run_def Let_def)

lemma ex_run_state:
  "main (run ex_env (ex_trace 1) ex_start) = Ranging"
  "crashed (run ex_env (ex_trace 1) ex_start) = None"
  "leaf (watcher (run ex_env (ex_trace 1) ex_start)) \<noteq> None"
  "length (C (watcher (run ex_env (ex_trace 1) ex_start))) = 1"
  by (simp_all add: ex_defs)

theorem notifyChanged_coalesces_witness:
  "length (C (watcher (run ex_env (replicate 2 Main)
      ((run ex_env (ex_trace 1) ex_start)
         \<lparr>watcher := (notifyChanged ^^ 3) (watcher (run ex_env (ex_trace 1) ex_start))\<rparr>)))) = 2 \<and>
   update ((notifyChanged ^^ 3) (watcher (run ex_env (ex_trace 1) ex_start))) = \<lparr>cap = 1, buf = 1\<rparr>"
proof -
  let ?s = "run ex_env (ex_trace 1) ex_start"
  let ?w = "(notifyChanged ^^ 3) (watcher ?s)"
  let ?g = "fst (genCfg ex_env ((watcher ?s)\<lparr>update := \<lparr>cap = 1, buf = 0\<rparr>\<rparr>))"
  have n: "(0::nat) < 3" "(0::nat) < 2"
    by simp_all
  note t = notifyChanged_coalesces [OF ex_Run refl n, of ex_env "ex_trace 1"]
  note b = t [THEN conjunct2, THEN conjunct2, THEN conjunct2, THEN conjunct1]
  from t ex_run_state(1,2)
  have "C (watcher (run ex_env (replicate 2 Main) (?s\<lparr>watcher := ?w\<rparr>))) =
      C (watcher ?s) @ (case ?g of Inl p \<Rightarrow> [] | Inr cfg \<Rightarrow> [cfg])"
    and "isl ?g = (leaf (watcher ?s) = None)"
    unfolding Let_def by blast+
  with ex_run_state(3,4)
  have "length (C (watcher (run ex_env (replicate 2 Main) (?s\<lparr>watcher := ?w\<rparr>)))) = 2"
    by (cases ?g) simp_all
  with b show ?thesis
    by (intro conjI)
qed

subsection \<open>The readiness barrier\<close>

text \<open>
  C3. In a run of the watcher from \<^verbatim>\<open>Run\<close>, whatever the order of the turns of the
  goroutines: if a configuration has been sent on the output channel, then the run holds
  an answer without error to the query of each of the four watches (CA roots, leaf,
  registration of the sidecar, registration of the service) and \<^verbatim>\<open>Run\<close> is past the wait;
  while \<^verbatim>\<open>Run\<close> waits nothing has been sent. \<^verbatim>\<open>Run\<close> passes the wait at its next turn once
  the wait group is at zero. Past the wait, a turn of \<^verbatim>\<open>Run\<close> with a signal in the channel
  takes the signal and runs \<^verbatim>\<open>genCfg\<close> once (its two log lines appear), whichever watcher
  sent the signal: the channel carries no more than the signal. The configuration that
  \<^verbatim>\<open>genCfg\<close> returns is sent; when the leaf is nil \<^verbatim>\<open>genCfg\<close> panics, nothing is sent and the
  process ends.
\<close>

theorem readiness_barrier:
  assumes "Run proxyID svc (New name) = Inr s0" and "s = run env evs s0"
  shows "(C (watcher s) \<noteq> [] \<longrightarrow>
            main s = Ranging \<and>
            (\<exists>x m. CA (Got x m) \<in> set evs) \<and> (\<exists>x m. Leaf (Got x m) \<in> set evs) \<and>
            (\<exists>x m. Proxy (Got x m) \<in> set evs) \<and> (\<exists>x m. Port (Got x m) \<in> set evs)) \<and>
         (main s = Waiting \<longrightarrow> C (watcher s) = []) \<and>
         (main s = Waiting \<and> crashed s = None \<and> ready (watcher s) = 0 \<longrightarrow>
            main (step env Main s) = Ranging) \<and>
         (main s = Ranging \<and> crashed s = None \<and> buf (update (watcher s)) = 1 \<longrightarrow>
            (let g = fst (genCfg env ((watcher s)\<lparr>update := \<lparr>cap = 1, buf = 0\<rparr>\<rparr>));
                 t = step env Main s
             in C (watcher t) = C (watcher s) @ (case g of Inl p \<Rightarrow> [] | Inr cfg \<Rightarrow> [cfg]) \<and>
                crashed t = (case g of Inl p \<Rightarrow> Some p | Inr cfg \<Rightarrow> None) \<and>
                isl g = (leaf (watcher s) = None) \<and>
                log (watcher t) =
                  log (watcher s) @
                    [(Debug, ''generating configuration for service %s[%s]...''),
                     (Debug, ''done generating configuration, instances: %d/%d total'')] \<and>
                buf (update (watcher t)) = 0))"
proof -
  have i: "barrier_inv s"
    using barrier_inv_run [OF barrier_inv_Run(1) [OF assms(1)], of env evs] assms(2) by simp
  have waiting: "main s = Waiting \<longrightarrow> C (watcher s) = []"
    using i by (simp add: barrier_inv_def)
  have sent: "main s = Ranging \<and>
      (\<exists>x m. CA (Got x m) \<in> set evs) \<and> (\<exists>x m. Leaf (Got x m) \<in> set evs) \<and>
      (\<exists>x m. Proxy (Got x m) \<in> set evs) \<and> (\<exists>x m. Port (Got x m) \<in> set evs)"
    if "C (watcher s) \<noteq> []"
  proof -
    from that waiting have m: "main s = Ranging"
      by (cases "main s") auto
    with i have "pending_watches s = 0"
      by (simp add: barrier_inv_def)
    then have "\<not> p_first (caLoop s)" "\<not> p_first (leafLoop s)" "\<not> p_first (proxyLoop s)"
      "\<not> p_first (portLoop s)"
      by (simp_all add: pending_watches_0)
    with Run_first [OF assms(1)] m show ?thesis
      unfolding assms(2)
      by (auto dest: run_first_CA run_first_Leaf run_first_Proxy run_first_Port)
  qed
  have release: "main s = Waiting \<and> crashed s = None \<and> ready (watcher s) = 0 \<longrightarrow>
      main (step env Main s) = Ranging"
    by (simp add: step_def Run_iter_def)
  have synth: "(let g = fst (genCfg env ((watcher s)\<lparr>update := \<lparr>cap = 1, buf = 0\<rparr>\<rparr>));
                 t = step env Main s
             in C (watcher t) = C (watcher s) @ (case g of Inl p \<Rightarrow> [] | Inr cfg \<Rightarrow> [cfg]) \<and>
                crashed t = (case g of Inl p \<Rightarrow> Some p | Inr cfg \<Rightarrow> None) \<and>
                isl g = (leaf (watcher s) = None) \<and>
                log (watcher t) =
                  log (watcher s) @
                    [(Debug, ''generating configuration for service %s[%s]...''),
                     (Debug, ''done generating configuration, instances: %d/%d total'')] \<and>
                buf (update (watcher t)) = 0)"
    if m: "main s = Ranging" and c: "crashed s = None" and b: "buf (update (watcher s)) = 1"
  proof -
    have u: "update (watcher s) = \<lparr>cap = 1, buf = 1\<rparr>"
      using i b by (cases "update (watcher s)") (simp add: barrier_inv_def chan_ok_def)
    have r: "step env Main s = Run_iter env s"
      by (simp add: step_def c)
    note d = Run_iter_drain [OF m u, of env]
    have cr: "crashed (Run_iter env s) =
        (case fst (genCfg env ((watcher s)\<lparr>update := \<lparr>cap = 1, buf = 0\<rparr>\<rparr>)) of
           Inl p \<Rightarrow> Some p | Inr cfg \<Rightarrow> None)"
      using d(2) c by (simp split: sum.splits)
    from d(1,3,4) cr genCfg_Inl_iff [of env "(watcher s)\<lparr>update := \<lparr>cap = 1, buf = 0\<rparr>\<rparr>"]
    show ?thesis
      unfolding Let_def r by simp
  qed
  from waiting sent release synth show ?thesis
    by blast
qed

theorem readiness_barrier_witness:
  "C (watcher (run ex_env (ex_trace 1) ex_start)) \<noteq> [] \<and>
   main (run ex_env (ex_trace 1) ex_start) = Ranging \<and>
   (\<exists>x m. CA (Got x m) \<in> set (ex_trace 1)) \<and> (\<exists>x m. Leaf (Got x m) \<in> set (ex_trace 1)) \<and>
   (\<exists>x m. Proxy (Got x m) \<in> set (ex_trace 1)) \<and> (\<exists>x m. Port (Got x m) \<in> set (ex_trace 1))"
proof -
  have "C (watcher (run ex_env (ex_trace 1) ex_start)) \<noteq> []"
    using ex_run_state(4) by auto
  with readiness_barrier [OF ex_Run refl, of ex_env "ex_trace 1"] show ?thesis
    by blast
qed

subsection \<open>Reconciliation of the upstream watchers\<close>

lemma keys_register: "keys (register name u loop w) = insert name (keys w)"
  using dom_update [of name "fresh w" "upstreams w"] by (simp add: keys_def)

lemma map_of_register:
  "map_of (upstreams (register name u loop w)) = (map_of (upstreams w))(name \<mapsto> fresh w)"
  by (simp add: update_conv')

lemma wf_register:
  assumes "wf_upstreams w" and "goroutine_u (loop (fresh w)) = fresh w"
  shows "wf_upstreams (register name u loop w)"
proof -
  have "b = v \<or> (k, b) \<in> set al" if "(k, b) \<in> set (AList.update name v al)"
    for v b :: nat and al k
    using that by (induction al) (auto split: if_splits)
  with assms show ?thesis
    unfolding wf_upstreams_def
    by (fastforce simp: distinct_update less_Suc_eq)
qed

lemma newUpstream_fields [simp]:
  "u_done (newUpstream up name) = False" "u_Name (newUpstream up name) = name"
  "u_Nodes (newUpstream up name) = []"
  by (simp_all add: newUpstream_def Let_def split: option.splits)

lemma started_register:
  assumes "goroutine_u (loop (fresh w)) = fresh w"
  shows "started name w (register name (newUpstream up name) loop w)"
  unfolding started_def
  using assms wf_register [of w loop name "newUpstream up name"]
  by (simp add: keys_register update_conv')

lemma wf_upstreams_logf [simp]: "wf_upstreams (logf l f w) = wf_upstreams w"
  by (simp add: wf_upstreams_def)

lemma keys_logf [simp]: "keys (logf l f w) = keys w"
  by (simp add: keys_def)

lemma started_logf: "started name (logf l f w) w1 \<Longrightarrow> started name w w1"
  by (simp add: started_def)

lemma startUpstreamService_started: "started name w (startUpstreamService up name w)"
  unfolding startUpstreamService_def Let_def
  by (rule started_logf, rule started_register) simp

lemma only_logged_logf: "only_logged w (logf l f (logf l' f' w))"
  by (simp add: only_logged_def logf_def)

lemma startUpstreamPreparedQuery_cases:
  assumes "A_DestinationType up = UpstreamDestTypePreparedQuery"
  shows "if startable env up
         then started name w (startUpstreamPreparedQuery env up name w)
         else only_logged w (startUpstreamPreparedQuery env up name w) \<and>
              log (startUpstreamPreparedQuery env up name w) =
                log w @ [(Info, ''consul: watching upstream for prepared_query %s''),
                         (Error, ''consul: upstream %s %s: invalid poll interval %s: %s'')]"
proof -
  let ?w = "logf Info ''consul: watching upstream for prepared_query %s'' w"
  have s: "started name w (register name (newUpstream up name)
      (\<lambda>a. PreparedQueryLoop \<lparr>q_u = a, q_up = up, q_interval = i, q_last = None,
                               q_polling = False, q_returned = False, q_slept = 0\<rparr>) ?w)" for i
    by (rule started_logf, rule started_register) simp
  show ?thesis
    using assms s
    by (auto simp: startable_def startUpstreamPreparedQuery_def Let_def only_logged_logf
        split: option.splits)
qed

lemma keys_map_of: "(k \<in> keys w) = (map_of (upstreams w) k \<noteq> None)"
  by (simp add: keys_def map_of_eq_None_iff)

lemma startIfMissing_cases:
  "if upstreamKey up \<in> keys w then startIfMissing env up w = w
   else if startable env up then started (upstreamKey up) w (startIfMissing env up w)
   else only_logged w (startIfMissing env up w)"
proof (cases "map_of (upstreams w) (upstreamKey up)")
  case (Some a)
  then have "upstreamKey up \<in> keys w"
    by (simp add: keys_map_of)
  with Some show ?thesis
    by (simp add: startIfMissing_def)
next
  case None
  then have n: "upstreamKey up \<notin> keys w"
    by (simp add: keys_map_of)
  show ?thesis
  proof (cases "A_DestinationType up = UpstreamDestTypePreparedQuery")
    case True
    with startUpstreamPreparedQuery_cases [OF True, of env "upstreamKey up" w] None n
    show ?thesis
      by (simp add: startIfMissing_def split: if_splits)
  next
    case False
    with startUpstreamService_started [of "upstreamKey up" w up] None n show ?thesis
      by (simp add: startIfMissing_def startable_def)
  qed
qed

lemma extends_refl: "extends w w"
  by (simp add: extends_def)

lemma only_logged_fields:
  assumes "only_logged w w1"
  shows "upstreams w1 = upstreams w" "heap w1 = heap w" "fresh w1 = fresh w"
    "goroutines w1 = goroutines w" "downstream w1 = downstream w"
  using assms by (cases w; cases w1; simp add: only_logged_def)+

lemma extends_only_logged: "only_logged w w1 \<Longrightarrow> extends w w1"
  by (simp add: only_logged_fields extends_def keys_def wf_upstreams_def)

lemma keys_only_logged: "only_logged w w1 \<Longrightarrow> keys w1 = keys w"
  by (simp add: only_logged_fields keys_def)

lemma extends_started:
  assumes "started name w w1" and "name \<notin> keys w"
  shows "extends w w1"
proof -
  from assms(1) obtain g where g: "goroutines w1 = goroutines w @ [g]" "goroutine_u g = fresh w"
    by (auto simp: started_def)
  have "goroutines w1 = goroutines w @ [g] \<and> goroutine_u ` set [g] = {fresh w ..< fresh w + 1}"
    using g by auto
  then have "\<exists>gs. goroutines w1 = goroutines w @ gs \<and>
      goroutine_u ` set gs = {fresh w ..< fresh w + 1}"
    by blast
  with assms show ?thesis
    unfolding extends_def started_def
    by (auto simp: fun_upd_apply)
qed

lemma startIfMissing_extends: "extends w (startIfMissing env up w)"
  using startIfMissing_cases [of up w env]
  by (auto simp: extends_refl extends_only_logged extends_started split: if_splits)

lemma startIfMissing_downstream: "downstream (startIfMissing env up w) = downstream w"
  using startIfMissing_cases [of up w env]
  by (auto simp: started_def only_logged_fields split: if_splits)

lemma startMissing_downstream:
  "startMissing env ups (keep, w) = (keep1, w1) \<Longrightarrow> downstream w1 = downstream w"
  by (induction ups arbitrary: keep w) (auto simp: startIfMissing_downstream)

lemma startIfMissing_keys:
  "keys (startIfMissing env up w) =
     (if startable env up then insert (upstreamKey up) (keys w) else keys w)"
  using startIfMissing_cases [of up w env]
  by (auto simp: started_def keys_only_logged split: if_splits)

lemma extends_trans:
  assumes "extends w v" and "extends v x"
  shows "extends w x"
proof -
  from assms obtain gs hs where g: "goroutines v = goroutines w @ gs"
    "goroutine_u ` set gs = {fresh w ..< fresh v}"
    and h: "goroutines x = goroutines v @ hs" "goroutine_u ` set hs = {fresh v ..< fresh x}"
    by (auto simp: extends_def)
  from assms have le: "fresh w \<le> fresh v" "fresh v \<le> fresh x"
    by (auto simp: extends_def)
  have "goroutines x = goroutines w @ (gs @ hs)"
    by (simp add: g h)
  moreover have "goroutine_u ` set (gs @ hs) = {fresh w ..< fresh x}"
    using g(2) h(2) le by (auto simp: image_Un)
  ultimately have gr: "\<exists>gs. goroutines x = goroutines w @ gs \<and>
      goroutine_u ` set gs = {fresh w ..< fresh x}"
    by blast
  have old: "map_of (upstreams x) k = map_of (upstreams w) k" if "k \<in> keys w" for k
  proof -
    from that assms(1) have e: "map_of (upstreams v) k = map_of (upstreams w) k"
      by (simp add: extends_def)
    from that have "map_of (upstreams w) k \<noteq> None"
      by (simp add: keys_map_of)
    with e have "k \<in> keys v"
      by (simp add: keys_map_of)
    with assms(2) e show ?thesis
      by (simp add: extends_def)
  qed
  have sub: "keys w \<subseteq> keys v"
  proof
    fix k assume k: "k \<in> keys w"
    with assms(1) have "map_of (upstreams v) k = map_of (upstreams w) k"
      by (simp add: extends_def)
    moreover from k have "map_of (upstreams w) k \<noteq> None"
      by (simp add: keys_map_of)
    ultimately show "k \<in> keys v"
      by (simp add: keys_map_of)
  qed
  have new: "\<exists>a. map_of (upstreams x) k = Some a \<and> fresh w \<le> a \<and> a < fresh x \<and>
      \<not> u_done (heap x a) \<and> u_Name (heap x a) = k" if "k \<in> keys x - keys w" for k
  proof (cases "k \<in> keys v")
    case True
    with that assms(1) obtain a where a: "map_of (upstreams v) k = Some a" "fresh w \<le> a"
      "a < fresh v" "\<not> u_done (heap v a)" "u_Name (heap v a) = k"
      unfolding extends_def by blast
    from True assms(2) have "map_of (upstreams x) k = map_of (upstreams v) k"
      by (simp add: extends_def)
    moreover from a(3) assms(2) have "heap x a = heap v a"
      by (simp add: extends_def)
    ultimately show ?thesis
      using a le by auto
  next
    case False
    with that assms(2) obtain a where "map_of (upstreams x) k = Some a" "fresh v \<le> a"
      "a < fresh x" "\<not> u_done (heap x a)" "u_Name (heap x a) = k"
      unfolding extends_def by blast
    with le show ?thesis by auto
  qed
  have heap: "heap x a = heap w a" if "a < fresh w" for a
    using that assms le by (simp add: extends_def)
  from assms le gr old new heap show ?thesis
    unfolding extends_def by auto
qed

lemma startMissing_reconciles:
  assumes "startMissing env ups (keep, w) = (keep1, w1)"
  shows "keep1 = keep \<union> upstreamKey ` set ups"
    and "keys w1 = keys w \<union> upstreamKey ` {up \<in> set ups. startable env up}"
    and "extends w w1"
  using assms
proof (induction ups arbitrary: keep w)
  case Nil
  {
    case 1 then show ?case by simp
  next
    case 2 then show ?case by simp
  next
    case 3 then show ?case by (simp add: extends_refl)
  }
next
  case (Cons up ups)
  {
    case 1
    then have "startMissing env ups (insert (upstreamKey up) keep, startIfMissing env up w) = (keep1, w1)"
      by simp
    from Cons.IH(1) [OF this] show ?case by auto
  next
    case 2
    then have "startMissing env ups (insert (upstreamKey up) keep, startIfMissing env up w) = (keep1, w1)"
      by simp
    from Cons.IH(2) [OF this] show ?case
      by (auto simp: startIfMissing_keys)
  next
    case 3
    then have "startMissing env ups (insert (upstreamKey up) keep, startIfMissing env up w) = (keep1, w1)"
      by simp
    from Cons.IH(3) [OF this] startIfMissing_extends [of w env up] show ?case
      by (blast intro: extends_trans)
  }
qed

lemma removeUpstream_tracked:
  assumes "map_of (upstreams w) name = Some a"
  shows "removeUpstream name w =
     Inr ((logf Info ''consul: removing upstream for service %s'' w)
            \<lparr>heap := (heap w)(a := (heap w a)\<lparr>u_done := True\<rparr>),
             upstreams := AList.delete name (upstreams w)\<rparr>)"
  using assms by (simp add: removeUpstream_def Let_def)

lemma mark_done_insert:
  "mark_done A (h(a := (h a)\<lparr>u_done := True\<rparr>)) = mark_done (insert a A) h"
  by (auto simp: mark_done_def fun_eq_iff)

lemma mark_done_empty [simp]: "mark_done {} h = h"
  by (simp add: mark_done_def)

lemma removeStale_removes:
  assumes "distinct names" and "set names \<subseteq> keys w" and "distinct (map fst (upstreams w))"
  shows "\<exists>w1. removeStale keep names w = Inr w1 \<and>
           upstreams w1 = filter (\<lambda>(k, a). k \<in> keep \<or> k \<notin> set names) (upstreams w) \<and>
           heap w1 = mark_done (stale keep names w) (heap w) \<and>
           fresh w1 = fresh w \<and> goroutines w1 = goroutines w \<and> downstream w1 = downstream w"
  using assms
proof (induction names arbitrary: w)
  case Nil
  then show ?case
    by (simp add: stale_def case_prod_beta)
next
  case (Cons name names)
  show ?case
  proof (cases "name \<in> keep")
    case True
    from Cons.prems have "\<exists>w1. removeStale keep names w = Inr w1 \<and>
           upstreams w1 = filter (\<lambda>(k, a). k \<in> keep \<or> k \<notin> set names) (upstreams w) \<and>
           heap w1 = mark_done (stale keep names w) (heap w) \<and>
           fresh w1 = fresh w \<and> goroutines w1 = goroutines w \<and> downstream w1 = downstream w"
      by (intro Cons.IH) auto
    moreover have "filter (\<lambda>(k, a). k \<in> keep \<or> k \<notin> set names) (upstreams w) =
        filter (\<lambda>(k, a). k \<in> keep \<or> k \<notin> set (name # names)) (upstreams w)"
      using True by (intro filter_cong) auto
    moreover have "stale keep names w = stale keep (name # names) w"
      using True by (auto simp: stale_def)
    ultimately show ?thesis
      using True by simp
  next
    case False
    from Cons.prems(2) obtain a where a: "map_of (upstreams w) name = Some a"
      by (auto simp: keys_map_of)
    define w2 where "w2 = (logf Info ''consul: removing upstream for service %s'' w)
            \<lparr>heap := (heap w)(a := (heap w a)\<lparr>u_done := True\<rparr>),
             upstreams := AList.delete name (upstreams w)\<rparr>"
    have r: "removeUpstream name w = Inr w2"
      unfolding w2_def by (rule removeUpstream_tracked [OF a])
    have "filter (\<lambda>(k', a). name \<noteq> k') (upstreams w) =
        filter (\<lambda>(k, a). k \<noteq> name) (upstreams w)"
      by (intro filter_cong) auto
    then have u2: "upstreams w2 = filter (\<lambda>(k, a). k \<noteq> name) (upstreams w)"
      by (simp add: w2_def AList.delete_eq)
    have k2: "keys w2 = keys w - {name}"
      by (auto simp: keys_def u2)
    have "\<exists>w1. removeStale keep names w2 = Inr w1 \<and>
           upstreams w1 = filter (\<lambda>(k, a). k \<in> keep \<or> k \<notin> set names) (upstreams w2) \<and>
           heap w1 = mark_done (stale keep names w2) (heap w2) \<and>
           fresh w1 = fresh w2 \<and> goroutines w1 = goroutines w2 \<and> downstream w1 = downstream w2"
    proof (rule Cons.IH)
      show "distinct names" using Cons.prems(1) by simp
      show "set names \<subseteq> keys w2" using Cons.prems(1,2) by (auto simp: k2)
      show "distinct (map fst (upstreams w2))"
        using Cons.prems(3) by (simp add: u2 distinct_map_filter)
    qed
    then obtain w1 where w1: "removeStale keep names w2 = Inr w1"
      "upstreams w1 = filter (\<lambda>(k, a). k \<in> keep \<or> k \<notin> set names) (upstreams w2)"
      "heap w1 = mark_done (stale keep names w2) (heap w2)"
      "fresh w1 = fresh w2" "goroutines w1 = goroutines w2" "downstream w1 = downstream w2"
      by blast
    have f: "upstreams w1 = filter (\<lambda>(k, a). k \<in> keep \<or> k \<notin> set (name # names)) (upstreams w)"
      unfolding w1(2) u2 filter_filter using False by (intro filter_cong) auto
    have in_a: "(name, a) \<in> set (upstreams w)"
      by (rule map_of_SomeD [OF a])
    have only_a: "b = a" if "(name, b) \<in> set (upstreams w)" for b
      using that a Cons.prems(3) by (simp add: map_of_eq_Some_iff)
    have nk: "name \<notin> keep"
      by (rule False)
    have "stale keep (name # names) w = insert a (stale keep names w2)"
    proof (intro set_eqI iffI)
      fix b
      assume "b \<in> stale keep (name # names) w"
      then obtain k where k: "(k, b) \<in> set (upstreams w)" "k \<notin> keep"
        "k = name \<or> k \<in> set names"
        unfolding stale_def by auto
      show "b \<in> insert a (stale keep names w2)"
      proof (cases "k = name")
        case True
        with k(1) only_a have "b = a" by simp
        then show ?thesis by simp
      next
        case False
        with k have "(k, b) \<in> set (upstreams w2)" and "k \<in> set names"
          by (simp_all add: u2)
        with k(2) have "b \<in> stale keep names w2"
          unfolding stale_def by blast
        then show ?thesis by simp
      qed
    next
      fix b
      assume "b \<in> insert a (stale keep names w2)"
      then consider "b = a" | "b \<in> stale keep names w2"
        by blast
      then show "b \<in> stale keep (name # names) w"
      proof cases
        case 1
        with in_a nk have "(name, b) \<in> set (upstreams w) \<and> name \<notin> keep \<and>
            name \<in> set (name # names)"
          by simp
        then show ?thesis
          unfolding stale_def by blast
      next
        case 2
        then obtain k where "(k, b) \<in> set (upstreams w2)" "k \<notin> keep" "k \<in> set names"
          unfolding stale_def by blast
        then have "(k, b) \<in> set (upstreams w) \<and> k \<notin> keep \<and> k \<in> set (name # names)"
          by (simp add: u2)
        then show ?thesis
          unfolding stale_def by blast
      qed
    qed
    then have h: "heap w1 = mark_done (stale keep (name # names) w) (heap w)"
      by (simp add: w1(3) w2_def mark_done_insert)
    from False r w1(1) f h w1(4,5,6) show ?thesis
      by (simp add: w2_def)
  qed
qed

lemma wf_upstreams_filter:
  assumes "wf_upstreams w" and "upstreams w1 = filter P (upstreams w)"
    and "fresh w1 = fresh w" and "goroutines w1 = goroutines w"
  shows "wf_upstreams w1"
  using assms by (auto simp: wf_upstreams_def distinct_map_filter)

text \<open>\<^verbatim>\<open>handleProxyChange\<close>, in two steps: the watcher \<open>w2\<close> after the loop over the upstream
  list, and the result \<open>w1\<close> after the loop over the map.\<close>

lemma handleProxyChange_reconciles:
  assumes "wf_upstreams w"
  shows "\<exists>w1 w2. handleProxyChange env first srv w = Inr w1 \<and>
           extends w w2 \<and>
           keys w2 = keys w \<union> upstreamKey ` {up \<in> set (proxyUpstreams srv). startable env up} \<and>
           upstreams w1 = filter (\<lambda>(k, a). k \<in> desired srv) (upstreams w2) \<and>
           heap w1 = mark_done {a. \<exists>k. (k, a) \<in> set (upstreams w2) \<and> k \<notin> desired srv} (heap w2) \<and>
           fresh w1 = fresh w2 \<and> goroutines w1 = goroutines w2 \<and>
           downstream w1 = configureDownstream srv (downstream w) \<and>
           wf_upstreams w1"
proof -
  let ?w0 = "w\<lparr>downstream := configureDownstream srv (downstream w)\<rparr>"
  have eq: "(case S_Proxy srv of None \<Rightarrow> ({}, ?w0)
             | Some p \<Rightarrow> startMissing env (P_Upstreams p) ({}, ?w0)) =
            startMissing env (proxyUpstreams srv) ({}, ?w0)"
    by (simp add: proxyUpstreams_def split: option.splits)
  obtain keep w2 where k: "startMissing env (proxyUpstreams srv) ({}, ?w0) = (keep, w2)"
    by (metis surj_pair)
  note sm = startMissing_reconciles [OF k]
  have keep: "keep = desired srv"
    using sm(1) by (simp add: desired_def)
  have wf0: "wf_upstreams ?w0"
    using assms by (simp add: wf_upstreams_def)
  have wf2: "wf_upstreams w2"
    using sm(3) wf0 by (simp add: extends_def)
  have ext: "extends w w2"
    using sm(3) by (simp add: extends_def keys_def wf_upstreams_def)
  have "\<exists>w1. removeStale keep (map fst (upstreams w2)) w2 = Inr w1 \<and>
           upstreams w1 = filter (\<lambda>(k, a). k \<in> keep \<or> k \<notin> set (map fst (upstreams w2))) (upstreams w2) \<and>
           heap w1 = mark_done (stale keep (map fst (upstreams w2)) w2) (heap w2) \<and>
           fresh w1 = fresh w2 \<and> goroutines w1 = goroutines w2 \<and> downstream w1 = downstream w2"
    using wf2 by (intro removeStale_removes) (auto simp: wf_upstreams_def keys_def)
  then obtain w3 where w3: "removeStale keep (map fst (upstreams w2)) w2 = Inr w3"
    "upstreams w3 = filter (\<lambda>(k, a). k \<in> keep \<or> k \<notin> set (map fst (upstreams w2))) (upstreams w2)"
    "heap w3 = mark_done (stale keep (map fst (upstreams w2)) w2) (heap w2)"
    "fresh w3 = fresh w2" "goroutines w3 = goroutines w2" "downstream w3 = downstream w2"
    by blast
  have mem: "k \<in> set (map fst (upstreams w2))" if "(k, a) \<in> set (upstreams w2)" for k a
    using that by (simp add: rev_image_eqI)
  have f: "upstreams w3 = filter (\<lambda>(k, a). k \<in> desired srv) (upstreams w2)"
    unfolding w3(2) keep using mem by (intro filter_cong) auto
  have st: "stale keep (map fst (upstreams w2)) w2 =
      {a. \<exists>k. (k, a) \<in> set (upstreams w2) \<and> k \<notin> desired srv}"
    unfolding stale_def keep using mem by blast
  have d: "downstream w3 = configureDownstream srv (downstream w)"
    using startMissing_downstream [OF k] by (simp add: w3(6))
  have wf3: "wf_upstreams w3"
    by (rule wf_upstreams_filter [OF wf2 f w3(4,5)])
  define w1 where "w1 = (if first then Done w3 else w3)"
  have same: "upstreams w1 = upstreams w3" "heap w1 = heap w3" "fresh w1 = fresh w3"
    "goroutines w1 = goroutines w3" "downstream w1 = downstream w3"
    "wf_upstreams w1 = wf_upstreams w3"
    by (simp_all add: w1_def wf_upstreams_def)
  show ?thesis
  proof (intro exI conjI)
    show "handleProxyChange env first srv w = Inr w1"
      unfolding handleProxyChange_def Let_def eq k by (simp add: w3(1) w1_def)
    show "extends w w2"
      by (rule ext)
    show "keys w2 = keys w \<union> upstreamKey ` {up \<in> set (proxyUpstreams srv). startable env up}"
      using sm(2) by (simp add: keys_def)
    show "upstreams w1 = filter (\<lambda>(k, a). k \<in> desired srv) (upstreams w2)"
      unfolding same(1) by (rule f)
    show "heap w1 = mark_done {a. \<exists>k. (k, a) \<in> set (upstreams w2) \<and> k \<notin> desired srv} (heap w2)"
      unfolding same(2) w3(3) st by (rule refl)
    show "fresh w1 = fresh w2"
      unfolding same(3) by (rule w3(4))
    show "goroutines w1 = goroutines w2"
      unfolding same(4) by (rule w3(5))
    show "downstream w1 = configureDownstream srv (downstream w)"
      unfolding same(5) by (rule d)
    show "wf_upstreams w1"
      unfolding same(6) by (rule wf3)
  qed
qed

subsection \<open>The map of upstreams in every state of a run\<close>

lemma wf_upstreams_same:
  assumes "upstreams w1 = upstreams w" and "fresh w1 = fresh w"
    and "goroutines w1 = goroutines w"
  shows "wf_upstreams w1 = wf_upstreams w"
  using assms by (simp add: wf_upstreams_def)

lemma addRoots_tracking [simp]:
  "upstreams (addRoots env pems w) = upstreams w" "fresh (addRoots env pems w) = fresh w"
  "goroutines (addRoots env pems w) = goroutines w"
  by (induction pems arbitrary: w) (simp_all add: Let_def)

lemma wf_upstreams_watchCA_iter:
  "watchCA_iter env r (l, w) = (l1, w1) \<Longrightarrow> wf_upstreams w1 = wf_upstreams w"
  by (rule wf_upstreams_same)
     (auto simp: watchCA_iter_def Let_def split: response.splits if_splits)

lemma wf_upstreams_watchLeaf_iter:
  "watchLeaf_iter r (l, w) = (l1, w1) \<Longrightarrow> wf_upstreams w1 = wf_upstreams w"
  by (rule wf_upstreams_same)
     (auto simp: watchLeaf_iter_def Let_def split: response.splits if_splits)

lemma wf_upstreams_notifyChanged [simp]: "wf_upstreams (notifyChanged w) = wf_upstreams w"
  by (simp add: wf_upstreams_def)

lemma wf_upstreams_Done [simp]: "wf_upstreams (Done w) = wf_upstreams w"
  by (simp add: wf_upstreams_def)

lemma wf_upstreams_watchService_iter:
  assumes "watchService_iter handler r (l, w) = Inr (l1, w1)" and "wf_upstreams w"
    and h: "\<And>first srv w w1. handler first srv w = Inr w1 \<Longrightarrow> wf_upstreams w \<Longrightarrow> wf_upstreams w1"
  shows "wf_upstreams w1"
proof (cases r)
  case Failed
  with assms(1,2) show ?thesis
    by (auto simp: watchService_iter_def)
next
  case (Got srv meta)
  show ?thesis
  proof (cases "p_lastSeen l \<noteq> LastContentHash meta")
    case False
    with assms(1,2) Got show ?thesis
      by (auto simp: watchService_iter_def Let_def)
  next
    case True
    with assms(1) Got obtain w2 where
      r: "handler (p_first l) srv (logf Debug ''consul: service %s changed'' w) = Inr w2"
      and e: "w1 = notifyChanged w2"
      by (auto simp: watchService_iter_def Let_def split: sum.splits)
    have "wf_upstreams w2"
      by (rule h [OF r]) (simp add: assms(2))
    then show ?thesis
      by (simp add: e)
  qed
qed

lemma handleProxyChange_wf:
  assumes "handleProxyChange env first srv w = Inr w1" and "wf_upstreams w"
  shows "wf_upstreams w1"
  using handleProxyChange_reconciles [OF assms(2), of env first srv] assms(1) by auto

lemma handlePort_wf:
  assumes "handlePort first srv w = Inr w1" and "wf_upstreams w"
  shows "wf_upstreams w1"
proof -
  have "upstreams w1 = upstreams w" "fresh w1 = fresh w" "goroutines w1 = goroutines w"
    using assms(1) by (auto simp: handlePort_def Let_def Done_def split: if_splits)
  then show ?thesis
    using assms(2) by (simp add: wf_upstreams_def)
qed

lemma wf_upstreams_goroutine_update:
  assumes "wf_upstreams w" and "n < length (goroutines w)"
    and "goroutine_u g = goroutine_u (goroutines w ! n)"
    and "upstreams w1 = upstreams w" and "fresh w1 = fresh w"
    and "goroutines w1 = (goroutines w)[n := g]"
  shows "wf_upstreams w1"
proof -
  have "goroutine_u x < fresh w" if "x \<in> set ((goroutines w)[n := g])" for x
  proof -
    from that have "x = g \<or> x \<in> set (goroutines w)"
      by (meson insertE set_update_subset_insert subsetD)
    with assms(1,2,3) show ?thesis
      by (auto simp: wf_upstreams_def)
  qed
  with assms show ?thesis
    by (simp add: wf_upstreams_def)
qed

lemma wf_upstreams_upstream_head: "wf_upstreams w \<Longrightarrow> wf_upstreams (upstream_head n w)"
proof -
  assume wf: "wf_upstreams w"
  show ?thesis
  proof (cases "n < length (goroutines w)")
    case False
    with wf show ?thesis by (simp add: upstream_head_def)
  next
    case True
    show ?thesis
    proof (cases "goroutines w ! n")
      case (ServiceLoop g)
      show ?thesis
      proof (cases "s_returned g \<or> s_polling g")
        case True
        with wf ServiceLoop \<open>n < length (goroutines w)\<close> show ?thesis
          by (simp add: upstream_head_def)
      next
        case False
        with ServiceLoop \<open>n < length (goroutines w)\<close> show ?thesis
          by (intro wf_upstreams_goroutine_update [OF wf, of n "ServiceLoop (serviceLoop_head (g, w))"])
             (simp_all add: upstream_head_def serviceLoop_head_def)
      qed
    next
      case (PreparedQueryLoop g)
      show ?thesis
      proof (cases "q_returned g \<or> q_polling g")
        case True
        with wf PreparedQueryLoop \<open>n < length (goroutines w)\<close> show ?thesis
          by (simp add: upstream_head_def)
      next
        case False
        with PreparedQueryLoop \<open>n < length (goroutines w)\<close> show ?thesis
          by (intro wf_upstreams_goroutine_update [OF wf, of n
                "PreparedQueryLoop (preparedQueryLoop_head (g, w))"])
             (simp_all add: upstream_head_def preparedQueryLoop_head_def)
      qed
    qed
  qed
qed

lemma wf_upstreams_upstream_answer: "wf_upstreams w \<Longrightarrow> wf_upstreams (upstream_answer n r w)"
proof -
  assume wf: "wf_upstreams w"
  show ?thesis
  proof (cases "n < length (goroutines w)")
    case False
    with wf show ?thesis by (simp add: upstream_answer_def)
  next
    case True
    show ?thesis
    proof (cases "goroutines w ! n")
      case (ServiceLoop g)
      show ?thesis
      proof (cases "s_polling g")
        case False
        with wf ServiceLoop True show ?thesis
          by (simp add: upstream_answer_def)
      next
        case p: True
        obtain g1 w1 where a: "serviceLoop_answer r (g, w) = (g1, w1)"
          by (metis surj_pair)
        note b = serviceLoop_answer_barrier [OF a]
        have "wf_upstreams (w1\<lparr>goroutines := (goroutines w1)[n := ServiceLoop g1]\<rparr>)"
          using ServiceLoop True b
          by (intro wf_upstreams_goroutine_update [OF wf, of n "ServiceLoop g1"]) simp_all
        with ServiceLoop True p a show ?thesis
          by (simp add: upstream_answer_def)
      qed
    next
      case (PreparedQueryLoop g)
      show ?thesis
      proof (cases "q_polling g")
        case False
        with wf PreparedQueryLoop True show ?thesis
          by (simp add: upstream_answer_def)
      next
        case p: True
        obtain g1 w1 where a: "preparedQueryLoop_answer r (g, w) = (g1, w1)"
          by (metis surj_pair)
        note b = preparedQueryLoop_answer_barrier [OF a]
        have "wf_upstreams (w1\<lparr>goroutines := (goroutines w1)[n := PreparedQueryLoop g1]\<rparr>)"
          using PreparedQueryLoop True b
          by (intro wf_upstreams_goroutine_update [OF wf, of n "PreparedQueryLoop g1"]) simp_all
        with PreparedQueryLoop True p a show ?thesis
          by (simp add: upstream_answer_def)
      qed
    qed
  qed
qed

lemma wf_upstreams_Run_iter:
  "wf_upstreams (watcher s) \<Longrightarrow> wf_upstreams (watcher (Run_iter env s))"
proof -
  assume wf: "wf_upstreams (watcher s)"
  have g: "wf_upstreams (snd (genCfg env w)) = wf_upstreams w" for w :: "('a, 'b) Watcher"
    by (simp add: genCfg_snd)
  have "wf_upstreams w1"
    if "genCfg env ((watcher s)\<lparr>update := c\<rparr>) = (res, w1)" for c res w1
    using g [of "(watcher s)\<lparr>update := c\<rparr>"] that wf by (simp add: wf_upstreams_def)
  then have "wf_upstreams (w1\<lparr>C := out\<rparr>)"
    if "genCfg env ((watcher s)\<lparr>update := c\<rparr>) = (res, w1)" for c res w1 out
    using that by (simp add: wf_upstreams_def)
  with wf \<open>\<And>w1 res c. genCfg env ((watcher s)\<lparr>update := c\<rparr>) = (res, w1) \<Longrightarrow> wf_upstreams w1\<close>
  show ?thesis
    by (auto simp: Run_iter_def split: pc.splits option.splits prod.splits sum.splits)
qed

lemma wf_upstreams_step:
  assumes "wf_upstreams (watcher s)"
  shows "wf_upstreams (watcher (step env ev s))"
proof (cases "crashed s \<noteq> None")
  case True
  with assms show ?thesis by (simp add: step_def)
next
  case False
  show ?thesis
  proof (cases ev)
    case (CA r)
    obtain l w where e: "watchCA_iter env r (caLoop s, watcher s) = (l, w)"
      by (metis surj_pair)
    with wf_upstreams_watchCA_iter [OF e] assms False CA show ?thesis
      by (simp add: step_def)
  next
    case (Leaf r)
    obtain l w where e: "watchLeaf_iter r (leafLoop s, watcher s) = (l, w)"
      by (metis surj_pair)
    with wf_upstreams_watchLeaf_iter [OF e] assms False Leaf show ?thesis
      by (simp add: step_def)
  next
    case (Proxy r)
    show ?thesis
    proof (cases "watchService_iter (handleProxyChange env) r (proxyLoop s, watcher s)")
      case (Inl p)
      with assms False Proxy show ?thesis
        by (simp add: step_def)
    next
      case (Inr lw)
      then obtain l w where
        e: "watchService_iter (handleProxyChange env) r (proxyLoop s, watcher s) = Inr (l, w)"
        by (cases lw) simp
      have "wf_upstreams w"
        by (rule wf_upstreams_watchService_iter [OF e assms]) (rule handleProxyChange_wf)
      with False Proxy e show ?thesis
        by (simp add: step_def)
    qed
  next
    case (Port r)
    show ?thesis
    proof (cases "watchService_iter handlePort r (portLoop s, watcher s)")
      case (Inl p)
      with assms False Port show ?thesis
        by (simp add: step_def)
    next
      case (Inr lw)
      then obtain l w where
        e: "watchService_iter handlePort r (portLoop s, watcher s) = Inr (l, w)"
        by (cases lw) simp
      have "wf_upstreams w"
        by (rule wf_upstreams_watchService_iter [OF e assms]) (rule handlePort_wf)
      with False Port e show ?thesis
        by (simp add: step_def)
    qed
  next
    case (Head n)
    with assms False show ?thesis
      by (simp add: step_def wf_upstreams_upstream_head)
  next
    case (Answer n r)
    with assms False show ?thesis
      by (simp add: step_def wf_upstreams_upstream_answer)
  next
    case Main
    with assms False show ?thesis
      by (simp add: step_def wf_upstreams_Run_iter)
  qed
qed

lemma wf_upstreams_New: "wf_upstreams (New name)"
  by (simp add: New_def wf_upstreams_def)

lemma wf_upstreams_run:
  assumes "Run proxyID svc (New name) = Inr s0"
  shows "wf_upstreams (watcher (run env evs s0))"
proof (induction evs rule: rev_induct)
  case Nil
  from assms have "upstreams (watcher s0) = upstreams (New name :: ('a, 'b) Watcher)"
    and "fresh (watcher s0) = fresh (New name :: ('a, 'b) Watcher)"
    and "goroutines (watcher s0) = goroutines (New name :: ('a, 'b) Watcher)"
    by (auto simp: Run_def Let_def split: option.splits)
  then show ?case
    using wf_upstreams_New [of name] by (simp add: wf_upstreams_def)
next
  case (snoc ev evs)
  then show ?case
    by (simp add: run_snoc wf_upstreams_step)
qed


lemma wf_upstreams_log [simp]: "wf_upstreams (w\<lparr>log := lg\<rparr>) = wf_upstreams w"
  by (simp add: wf_upstreams_def)

lemma handleProxyChange_total:
  "wf_upstreams w \<Longrightarrow> \<exists>w1. handleProxyChange env first srv w = Inr w1"
  using handleProxyChange_reconciles [of w env first srv] by blast

subsection \<open>Reconciliation against the upstream list of a registration\<close>










subsection \<open>The watch loops after a failed query\<close>

text \<open>
  C5, as the code has it. A turn of a watch loop whose query failed sleeps
  \<^verbatim>\<open>errorWaitTime\<close>, five seconds, sets the index to zero or the hash to the empty string,
  logs the error and changes nothing else. The next answer, taken with the loop variables
  that turn left and with the watcher in any state \<open>v\<close> (the other goroutines may have run
  in between), counts as a change when its index is not zero, or its hash not empty:
  \<^verbatim>\<open>watchCA\<close> replaces the CA certificates, \<^verbatim>\<open>watchLeaf\<close> stores the certificate and the key,
  \<^verbatim>\<open>watchService\<close> calls its handler (\<^verbatim>\<open>handleProxyChange\<close> for the sidecar, the function that
  stores the port for the service itself), the goroutine of a service upstream stores the
  nodes, and each then calls \<^verbatim>\<open>notifyChanged\<close>, whatever the answer was before the failure.
\<close>

theorem resync_on_error:
  "watchCA_iter env Failed (lc, w) =
       (lc\<lparr>p_slept := p_slept lc + 5 * second, p_lastSeen := 0\<rparr>,
        logf Error ''consul: error fetching cas: %s'' w) \<and>
     (LastIndex meta \<noteq> 0 \<longrightarrow>
      watchCA_iter env (Got cas meta) (lc\<lparr>p_slept := p_slept lc + 5 * second, p_lastSeen := 0\<rparr>, v) =
       (lc\<lparr>p_slept := p_slept lc + 5 * second, p_lastSeen := LastIndex meta, p_first := False\<rparr>,
        (let v1 = notifyChanged
                    (addRoots env (Roots cas)
                       ((logf Info ''consul: CA certs changed, active root id: %s'' v)
                          \<lparr>certCAs := [], certCAPool := Some []\<rparr>))
         in if p_first lc then Done (logf Info ''consul: CA certs ready'' v1) else v1))) \<and>
     watchLeaf_iter Failed (lc, w) =
       (lc\<lparr>p_slept := p_slept lc + 5 * second, p_lastSeen := 0\<rparr>,
        logf Error ''consul error fetching leaf cert for service %s: %s'' w) \<and>
     (LastIndex meta \<noteq> 0 \<longrightarrow>
      watchLeaf_iter (Got cert meta) (lc\<lparr>p_slept := p_slept lc + 5 * second, p_lastSeen := 0\<rparr>, v) =
       (lc\<lparr>p_slept := p_slept lc + 5 * second, p_lastSeen := LastIndex meta, p_first := False\<rparr>,
        (let lf = (case leaf v of
                     None \<Rightarrow> \<lparr>l_Cert = [], l_Key = [], l_done = False\<rparr>
                   | Some lf \<Rightarrow> lf);
             v1 = notifyChanged
                    ((logf Info ''consul: leaf cert for service %s changed, serial: %s, valid before: %s, valid after: %s'' v)
                       \<lparr>leaf := Some (lf\<lparr>l_Cert := CertPEM cert, l_Key := PrivateKeyPEM cert\<rparr>)\<rparr>)
         in if p_first lc then Done (logf Info ''consul: leaf cert for %s ready'' v1) else v1))) \<and>
     watchService_iter (handleProxyChange env) Failed (ls, w) =
       Inr (ls\<lparr>p_slept := p_slept ls + 5 * second, p_lastSeen := []\<rparr>,
            logf Error ''consul: error fetching service %s definition: %s'' w) \<and>
     (LastContentHash meta \<noteq> [] \<longrightarrow>
      watchService_iter (handleProxyChange env) (Got srv meta)
         (ls\<lparr>p_slept := p_slept ls + 5 * second, p_lastSeen := []\<rparr>, v) =
       (case handleProxyChange env (p_first ls) srv (logf Debug ''consul: service %s changed'' v) of
          Inl p \<Rightarrow> Inl p
        | Inr v1 \<Rightarrow>
            Inr (ls\<lparr>p_slept := p_slept ls + 5 * second, p_lastSeen := LastContentHash meta,
                    p_first := False\<rparr>,
                 notifyChanged v1))) \<and>
     watchService_iter handlePort Failed (ls, w) =
       Inr (ls\<lparr>p_slept := p_slept ls + 5 * second, p_lastSeen := []\<rparr>,
            logf Error ''consul: error fetching service %s definition: %s'' w) \<and>
     (LastContentHash meta \<noteq> [] \<longrightarrow>
      watchService_iter handlePort (Got srv meta)
         (ls\<lparr>p_slept := p_slept ls + 5 * second, p_lastSeen := []\<rparr>, v) =
       Inr (ls\<lparr>p_slept := p_slept ls + 5 * second, p_lastSeen := LastContentHash meta,
               p_first := False\<rparr>,
            (let v1 = (logf Debug ''consul: service %s changed'' v)
                        \<lparr>downstream := (downstream v)\<lparr>d_TargetPort := S_Port srv\<rparr>\<rparr>
             in notifyChanged (if p_first ls then Done v1 else v1)))) \<and>
     serviceLoop_answer Failed (g, w) =
       (g\<lparr>s_slept := s_slept g + 5 * second, s_index := 0, s_polling := False\<rparr>,
        logf Error ''consul: error fetching service definition for service %s: %s'' w) \<and>
     (LastIndex meta \<noteq> 0 \<longrightarrow>
      serviceLoop_answer (Got nodes meta)
         (g\<lparr>s_slept := s_slept g + 5 * second, s_index := 0, s_polling := True\<rparr>, v) =
       (g\<lparr>s_slept := s_slept g + 5 * second, s_index := LastIndex meta, s_polling := False\<rparr>,
        notifyChanged (v\<lparr>heap := (heap v)(s_u g := (heap v (s_u g))\<lparr>u_Nodes := nodes\<rparr>)\<rparr>)))"
proof -
  have ca: "watchCA_iter env Failed (lc, w) =
       (lc\<lparr>p_slept := p_slept lc + 5 * second, p_lastSeen := 0\<rparr>,
        logf Error ''consul: error fetching cas: %s'' w)"
    by (simp add: watchCA_iter_def errorWaitTime_def)
  have ca': "LastIndex meta \<noteq> 0 \<longrightarrow> watchCA_iter env (Got cas meta) (lc\<lparr>p_slept := p_slept lc + 5 * second, p_lastSeen := 0\<rparr>, v) =
       (lc\<lparr>p_slept := p_slept lc + 5 * second, p_lastSeen := LastIndex meta, p_first := False\<rparr>,
        (let v1 = notifyChanged
                    (addRoots env (Roots cas)
                       ((logf Info ''consul: CA certs changed, active root id: %s'' v)
                          \<lparr>certCAs := [], certCAPool := Some []\<rparr>))
         in if p_first lc then Done (logf Info ''consul: CA certs ready'' v1) else v1))"
    by (cases "p_first lc") (simp_all add: watchCA_iter_def Let_def)
  have lf: "watchLeaf_iter Failed (lc, w) =
       (lc\<lparr>p_slept := p_slept lc + 5 * second, p_lastSeen := 0\<rparr>,
        logf Error ''consul error fetching leaf cert for service %s: %s'' w)"
    by (simp add: watchLeaf_iter_def errorWaitTime_def)
  have lf': "LastIndex meta \<noteq> 0 \<longrightarrow> watchLeaf_iter (Got cert meta) (lc\<lparr>p_slept := p_slept lc + 5 * second, p_lastSeen := 0\<rparr>, v) =
       (lc\<lparr>p_slept := p_slept lc + 5 * second, p_lastSeen := LastIndex meta, p_first := False\<rparr>,
        (let lf = (case leaf v of
                     None \<Rightarrow> \<lparr>l_Cert = [], l_Key = [], l_done = False\<rparr>
                   | Some lf \<Rightarrow> lf);
             v1 = notifyChanged
                    ((logf Info ''consul: leaf cert for service %s changed, serial: %s, valid before: %s, valid after: %s'' v)
                       \<lparr>leaf := Some (lf\<lparr>l_Cert := CertPEM cert, l_Key := PrivateKeyPEM cert\<rparr>)\<rparr>)
         in if p_first lc then Done (logf Info ''consul: leaf cert for %s ready'' v1) else v1))"
    by (cases "p_first lc") (simp_all add: watchLeaf_iter_def Let_def logf_def)
  have sv: "watchService_iter handler Failed (ls, w) =
       Inr (ls\<lparr>p_slept := p_slept ls + 5 * second, p_lastSeen := []\<rparr>,
            logf Error ''consul: error fetching service %s definition: %s'' w)"
    for handler :: "bool \<Rightarrow> AgentService \<Rightarrow> ('a, 'b) Watcher \<Rightarrow> panic + ('a, 'b) Watcher"
    by (simp add: watchService_iter_def errorWaitTime_def)
  have px: "LastContentHash meta \<noteq> [] \<longrightarrow> watchService_iter (handleProxyChange env) (Got srv meta)
         (ls\<lparr>p_slept := p_slept ls + 5 * second, p_lastSeen := []\<rparr>, v) =
       (case handleProxyChange env (p_first ls) srv (logf Debug ''consul: service %s changed'' v) of
          Inl p \<Rightarrow> Inl p
        | Inr v1 \<Rightarrow>
            Inr (ls\<lparr>p_slept := p_slept ls + 5 * second, p_lastSeen := LastContentHash meta,
                    p_first := False\<rparr>,
                 notifyChanged v1))"
    by (simp add: watchService_iter_def Let_def split: sum.splits)
  have pt: "LastContentHash meta \<noteq> [] \<longrightarrow> watchService_iter handlePort (Got srv meta)
         (ls\<lparr>p_slept := p_slept ls + 5 * second, p_lastSeen := []\<rparr>, v) =
       Inr (ls\<lparr>p_slept := p_slept ls + 5 * second, p_lastSeen := LastContentHash meta,
               p_first := False\<rparr>,
            (let v1 = (logf Debug ''consul: service %s changed'' v)
                        \<lparr>downstream := (downstream v)\<lparr>d_TargetPort := S_Port srv\<rparr>\<rparr>
             in notifyChanged (if p_first ls then Done v1 else v1)))"
    by (simp add: watchService_iter_def handlePort_def Let_def logf_def)
  have up: "serviceLoop_answer Failed (g, w) =
       (g\<lparr>s_slept := s_slept g + 5 * second, s_index := 0, s_polling := False\<rparr>,
        logf Error ''consul: error fetching service definition for service %s: %s'' w)"
    by (simp add: serviceLoop_answer_def errorWaitTime_def)
  have up': "LastIndex meta \<noteq> 0 \<longrightarrow> serviceLoop_answer (Got nodes meta)
         (g\<lparr>s_slept := s_slept g + 5 * second, s_index := 0, s_polling := True\<rparr>, v) =
       (g\<lparr>s_slept := s_slept g + 5 * second, s_index := LastIndex meta, s_polling := False\<rparr>,
        notifyChanged (v\<lparr>heap := (heap v)(s_u g := (heap v (s_u g))\<lparr>u_Nodes := nodes\<rparr>)\<rparr>))"
    by (simp add: serviceLoop_answer_def Let_def)
  show ?thesis
    using ca ca' lf lf' sv [of "handleProxyChange env"] px sv [of handlePort] pt up up'
    by (intro conjI)
qed

text \<open>
  The start of the example, then a failed query for the leaf, then an answer with index
  7 that carries a new certificate: the certificate is stored and the signal is in the
  channel.
\<close>

theorem resync_on_error_witness:
  "leaf (snd (watchLeaf_iter (Got \<lparr>CertPEM = ''cert2'', PrivateKeyPEM = ''key2''\<rparr> (ex_meta 7 ''h''))
      (fst (watchLeaf_iter Failed (leafLoop (run ex_env (ex_trace 1) ex_start),
                                   watcher (run ex_env (ex_trace 1) ex_start))),
       watcher (run ex_env (ex_trace 1) ex_start)))) =
     Some \<lparr>l_Cert = ''cert2'', l_Key = ''key2'', l_done = False\<rparr> \<and>
   update (snd (watchLeaf_iter (Got \<lparr>CertPEM = ''cert2'', PrivateKeyPEM = ''key2''\<rparr> (ex_meta 7 ''h''))
      (fst (watchLeaf_iter Failed (leafLoop (run ex_env (ex_trace 1) ex_start),
                                   watcher (run ex_env (ex_trace 1) ex_start))),
       watcher (run ex_env (ex_trace 1) ex_start)))) = \<lparr>cap = 1, buf = 1\<rparr>"
proof -
  let ?s = "run ex_env (ex_trace 1) ex_start"
  have m: "LastIndex (ex_meta 7 ''h'') \<noteq> 0" "LastContentHash (ex_meta 7 ''h'') \<noteq> []"
    by (simp_all add: ex_meta_def)
  note t = resync_on_error [where lc = "leafLoop ?s" and w = "watcher ?s" and v = "watcher ?s"
      and meta = "ex_meta 7 ''h''" and cert = "\<lparr>CertPEM = ''cert2'', PrivateKeyPEM = ''key2''\<rparr>"]
  note a = t [THEN conjunct2, THEN conjunct2, THEN conjunct1]
  note b = t [THEN conjunct2, THEN conjunct2, THEN conjunct2, THEN conjunct1, THEN mp, OF m(1)]
  have s: "leaf (watcher ?s) = Some \<lparr>l_Cert = ''cert'', l_Key = ''key'', l_done = False\<rparr>"
    "update (watcher ?s) = \<lparr>cap = 1, buf = 0\<rparr>" "p_first (leafLoop ?s) = False"
    by (simp_all add: ex_defs)
  show ?thesis
    unfolding a fst_conv b snd_conv
    by (simp add: Let_def s notifyChanged_def send_def logf_def)
qed

text \<open>
  C5, as the claim has it, fails when the answer after the failure has index zero: the
  loop compares zero with zero. In the example the leaf watch fails and then gets a new
  certificate with index 0; the index is zero after the failure, and after the answer
  the old certificate is still in place and no signal is in the channel.
\<close>

theorem resync_on_error_counterexample:
  "p_lastSeen (leafLoop (run ex_env (ex_trace 1 @ [Leaf Failed]) ex_start)) = 0 \<and>
   crashed (run ex_env (ex_trace 1 @ [Leaf Failed]) ex_start) = None \<and>
   update (watcher (run ex_env (ex_trace 1 @ [Leaf Failed]) ex_start)) = \<lparr>cap = 1, buf = 0\<rparr> \<and>
   leaf (watcher (run ex_env (ex_trace 1 @ [Leaf Failed,
       Leaf (Got \<lparr>CertPEM = ''cert2'', PrivateKeyPEM = ''key2''\<rparr> (ex_meta 0 []))]) ex_start)) =
     Some \<lparr>l_Cert = ''cert'', l_Key = ''key'', l_done = False\<rparr> \<and>
   update (watcher (run ex_env (ex_trace 1 @ [Leaf Failed,
       Leaf (Got \<lparr>CertPEM = ''cert2'', PrivateKeyPEM = ''key2''\<rparr> (ex_meta 0 []))]) ex_start)) =
     \<lparr>cap = 1, buf = 0\<rparr>"
  by (simp add: ex_defs)

subsection \<open>A prepared query with a malformed poll interval\<close>

lemma ex_bad_interval_facts:
  "A_Config ex_bad_interval ''poll_interval'' = Some (VString ''soon'')"
  "ParseDuration ex_env ''soon'' = None"
  "A_DestinationType ex_bad_interval = UpstreamDestTypePreparedQuery"
  by (simp_all add: ex_bad_interval_def ex_upstream_api_def ex_env_def
      UpstreamDestTypePreparedQuery_def)

lemma step_Proxy_crashed:
  assumes "wf_upstreams (watcher s)"
  shows "crashed (step env (Proxy r) s) = crashed s"
proof (cases "crashed s \<noteq> None")
  case True
  then show ?thesis by (simp add: step_def)
next
  case False
  show ?thesis
  proof (cases r)
    case Failed
    with False show ?thesis
      by (simp add: step_def watchService_iter_def)
  next
    case (Got srv meta)
    from handleProxyChange_total [of "logf Debug ''consul: service %s changed'' (watcher s)" env
        "p_first (proxyLoop s)" srv] assms
    obtain w1 where "handleProxyChange env (p_first (proxyLoop s)) srv
        (logf Debug ''consul: service %s changed'' (watcher s)) = Inr w1"
      by auto
    with False Got show ?thesis
      by (simp add: step_def watchService_iter_def Let_def)
  qed
qed

text \<open>
  C6. When the configuration block of a prepared-query upstream has a string under
  \<open>poll_interval\<close> that \<^verbatim>\<open>time.ParseDuration\<close> rejects, \<^verbatim>\<open>startUpstreamPreparedQuery\<close>
  returns the watcher with two more log lines, the second at error level, and nothing
  else changed: no key in the map, no object, no goroutine (so no poll, no nodes and no
  retry for that upstream), and every other upstream, goroutine and field of the watcher
  as it was. In the loop over the upstream list of a registration the turn for this
  upstream does that when its key is not in the map and nothing when it is, and the loop
  goes on with the rest of the list. In every state of a run, a turn of the watch of the
  sidecar, whatever the answer of the agent, raises no panic.
\<close>

theorem startUpstreamPreparedQuery_invalid_interval:
  assumes "A_DestinationType up = UpstreamDestTypePreparedQuery"
    and "A_Config up ''poll_interval'' = Some (VString p)" and "ParseDuration env p = None"
    and "Run proxyID svc (New name) = Inr s0" and "s = run env evs s0"
  shows "startUpstreamPreparedQuery env up key w =
           w\<lparr>log := log w @ [(Info, ''consul: watching upstream for prepared_query %s''),
                              (Error, ''consul: upstream %s %s: invalid poll interval %s: %s'')]\<rparr> \<and>
         upstreams (startUpstreamPreparedQuery env up key w) = upstreams w \<and>
         heap (startUpstreamPreparedQuery env up key w) = heap w \<and>
         goroutines (startUpstreamPreparedQuery env up key w) = goroutines w \<and>
         startMissing env (up # ups) (keep, w) =
           startMissing env ups
             (insert (upstreamKey up) keep,
              if upstreamKey up \<in> keys w then w
              else w\<lparr>log := log w @
                     [(Info, ''consul: watching upstream for prepared_query %s''),
                      (Error, ''consul: upstream %s %s: invalid poll interval %s: %s'')]\<rparr>) \<and>
         crashed (step env (Proxy r) s) = crashed s"
proof -
  have e: "startUpstreamPreparedQuery env up key w =
           w\<lparr>log := log w @ [(Info, ''consul: watching upstream for prepared_query %s''),
                              (Error, ''consul: upstream %s %s: invalid poll interval %s: %s'')]\<rparr>"
    for key
    using assms(2,3) by (simp add: startUpstreamPreparedQuery_def Let_def logf_def asString_def)
  have "startIfMissing env up w =
      (if upstreamKey up \<in> keys w then w else startUpstreamPreparedQuery env up (upstreamKey up) w)"
    using assms(1) by (auto simp: startIfMissing_def keys_map_of split: option.splits)
  then have m: "startMissing env (up # ups) (keep, w) =
           startMissing env ups
             (insert (upstreamKey up) keep,
              if upstreamKey up \<in> keys w then w
              else w\<lparr>log := log w @
                     [(Info, ''consul: watching upstream for prepared_query %s''),
                      (Error, ''consul: upstream %s %s: invalid poll interval %s: %s'')]\<rparr>)"
    by (simp add: e)
  have "wf_upstreams (watcher s)"
    using wf_upstreams_run [OF assms(4), of env evs] assms(5) by simp
  then have c: "crashed (step env (Proxy r) s) = crashed s"
    by (rule step_Proxy_crashed)
  have f: "upstreams (startUpstreamPreparedQuery env up key w) = upstreams w"
    "heap (startUpstreamPreparedQuery env up key w) = heap w"
    "goroutines (startUpstreamPreparedQuery env up key w) = goroutines w"
    by (simp_all add: e)
  show ?thesis
    using e [of key] f m c by (intro conjI)
qed

theorem startUpstreamPreparedQuery_invalid_interval_witness:
  "upstreams (startUpstreamPreparedQuery ex_env ex_bad_interval ''prepared_query_geo''
      (New ''web'' :: (string, unit) Watcher)) = [] \<and>
   goroutines (startUpstreamPreparedQuery ex_env ex_bad_interval ''prepared_query_geo''
      (New ''web'' :: (string, unit) Watcher)) = [] \<and>
   log (startUpstreamPreparedQuery ex_env ex_bad_interval ''prepared_query_geo''
      (New ''web'' :: (string, unit) Watcher)) =
     [(Info, ''consul: watching upstream for prepared_query %s''),
      (Error, ''consul: upstream %s %s: invalid poll interval %s: %s'')] \<and>
   crashed (step ex_env (Proxy (Got (ex_sidecar [ex_bad_interval]) (ex_meta 0 ''h1''))) ex_start) =
     None"
proof -
  note t = startUpstreamPreparedQuery_invalid_interval [OF ex_bad_interval_facts(3)
      ex_bad_interval_facts(1) ex_bad_interval_facts(2) ex_Run refl,
      where key = "''prepared_query_geo''" and w = "New ''web'' :: (string, unit) Watcher"
        and ups = "[]" and keep = "{}" and evs = "[]"
        and r = "Got (ex_sidecar [ex_bad_interval]) (ex_meta 0 ''h1'')"]
  have a: "startUpstreamPreparedQuery ex_env ex_bad_interval ''prepared_query_geo''
        (New ''web'' :: (string, unit) Watcher) =
      (New ''web'')\<lparr>log := log (New ''web'' :: (string, unit) Watcher) @
         [(Info, ''consul: watching upstream for prepared_query %s''),
          (Error, ''consul: upstream %s %s: invalid poll interval %s: %s'')]\<rparr>"
    by (rule t [THEN conjunct1])
  have "crashed (step ex_env (Proxy (Got (ex_sidecar [ex_bad_interval]) (ex_meta 0 ''h1'')))
      (run ex_env [] ex_start)) = crashed (run ex_env [] ex_start)"
    by (rule t [THEN conjunct2, THEN conjunct2, THEN conjunct2, THEN conjunct2, THEN conjunct2])
  then have b: "crashed (step ex_env (Proxy (Got (ex_sidecar [ex_bad_interval]) (ex_meta 0 ''h1'')))
      ex_start) = None"
    by (simp add: run_def ex_start_def Run_def Let_def)
  show ?thesis
    using b by (simp add: a) (simp add: New_def)
qed

subsection \<open>The poll of a prepared query\<close>

text \<open>
  C7. One turn of the goroutine of a prepared-query upstream, for a successful answer
  \<open>nodes\<close>: when \<open>nodes\<close> equals, field by field, the list \<^verbatim>\<open>last\<close> kept from the answer
  before, the watcher is left as it was, and so is \<^verbatim>\<open>last\<close>; otherwise (also at the first
  answer, where \<^verbatim>\<open>last\<close> is nil) the nodes of the upstream become \<open>nodes\<close>, \<^verbatim>\<open>notifyChanged\<close>
  is called once, and \<^verbatim>\<open>last\<close> becomes \<open>nodes\<close>. After either, \<^verbatim>\<open>last\<close> is the answer of this
  turn, and a failed query leaves it alone. So for two successful answers in a row, \<open>n1\<close> and
  then \<open>n2\<close>, with the watcher in any state \<open>v\<close> at the second: when \<open>n2\<close> equals \<open>n1\<close> the
  second turn changes nothing in the watcher, and when it differs the second turn stores
  \<open>n2\<close> and calls \<^verbatim>\<open>notifyChanged\<close> once. The goroutine that \<^verbatim>\<open>startUpstreamPreparedQuery\<close>
  starts, when it starts one, has \<^verbatim>\<open>last\<close> nil and holds the new upstream.
\<close>

theorem preparedQueryLoop_change_detection:
  "preparedQueryLoop_answer (Got nodes meta) (g, w) =
     (if q_last g = Some nodes
      then (g\<lparr>q_slept := q_slept g + q_interval g, q_polling := False\<rparr>, w)
      else (g\<lparr>q_last := Some nodes, q_slept := q_slept g + q_interval g, q_polling := False\<rparr>,
            notifyChanged (w\<lparr>heap := (heap w)(q_u g := (heap w (q_u g))\<lparr>u_Nodes := nodes\<rparr>)\<rparr>))) \<and>
   q_last (fst (preparedQueryLoop_answer (Got nodes meta) (g, w))) = Some nodes \<and>
   q_last (fst (preparedQueryLoop_answer Failed (g, w))) = q_last g \<and>
   snd (preparedQueryLoop_answer (Got n2 m2)
          ((fst (preparedQueryLoop_answer (Got n1 m1) (g, w)))\<lparr>q_polling := True\<rparr>, v)) =
     (if n2 = n1 then v
      else notifyChanged (v\<lparr>heap := (heap v)(q_u g := (heap v (q_u g))\<lparr>u_Nodes := n2\<rparr>)\<rparr>)) \<and>
   (goroutines (startUpstreamPreparedQuery env up key w) = goroutines w \<or>
    (\<exists>g0. goroutines (startUpstreamPreparedQuery env up key w) =
            goroutines w @ [PreparedQueryLoop g0] \<and>
          q_last g0 = None \<and> q_u g0 = fresh w))"
proof -
  have a: "preparedQueryLoop_answer (Got nodes meta) (g, w) =
     (if q_last g = Some nodes
      then (g\<lparr>q_slept := q_slept g + q_interval g, q_polling := False\<rparr>, w)
      else (g\<lparr>q_last := Some nodes, q_slept := q_slept g + q_interval g, q_polling := False\<rparr>,
            notifyChanged (w\<lparr>heap := (heap w)(q_u g := (heap w (q_u g))\<lparr>u_Nodes := nodes\<rparr>)\<rparr>)))"
    for nodes meta g and w :: "('a, 'b) Watcher"
    by (simp add: preparedQueryLoop_answer_def Let_def)
  have b: "q_last (fst (preparedQueryLoop_answer (Got nodes meta) (g, w))) = Some nodes"
    for nodes meta g and w :: "('a, 'b) Watcher"
    by (simp add: a)
  have u: "q_u (fst (preparedQueryLoop_answer (Got nodes meta) (g, w))) = q_u g"
    for nodes meta g and w :: "('a, 'b) Watcher"
    by (simp add: a)
  have c: "q_last (fst (preparedQueryLoop_answer Failed (g, w))) = q_last g"
    by (simp add: preparedQueryLoop_answer_def)
  have d: "snd (preparedQueryLoop_answer (Got n2 m2)
          ((fst (preparedQueryLoop_answer (Got n1 m1) (g, w)))\<lparr>q_polling := True\<rparr>, v)) =
     (if n2 = n1 then v
      else notifyChanged (v\<lparr>heap := (heap v)(q_u g := (heap v (q_u g))\<lparr>u_Nodes := n2\<rparr>)\<rparr>))"
    unfolding a [of n2 m2 _ v] using b [of n1 m1 g w] u [of n1 m1 g w] by auto
  have e: "goroutines (startUpstreamPreparedQuery env up key w) = goroutines w \<or>
    (\<exists>g0. goroutines (startUpstreamPreparedQuery env up key w) =
            goroutines w @ [PreparedQueryLoop g0] \<and>
          q_last g0 = None \<and> q_u g0 = fresh w)"
    by (simp add: startUpstreamPreparedQuery_def Let_def register_def logf_def
        split: option.splits)
  show ?thesis
    using a [of nodes meta g w] b [of nodes meta g w] c d e by (intro conjI)
qed

text \<open>
  The example of the specification: the first answer has the node \<open>n1\<close>, the second the
  nodes \<open>n1\<close> and \<open>n2\<close>, and \<^verbatim>\<open>Run\<close> has taken the signal of the first in between. The second
  answer is stored and leaves one signal in the channel; the same answer once more leaves
  none.
\<close>

theorem preparedQueryLoop_change_detection_witness:
  "update (snd (preparedQueryLoop_answer
      (Got [ex_entry ''n1'' ''10.0.0.1'' [] 8080 1 ''passing'',
            ex_entry ''n2'' ''10.0.0.2'' [] 8080 1 ''passing''] (ex_meta 0 []))
      ((fst (preparedQueryLoop_answer
          (Got [ex_entry ''n1'' ''10.0.0.1'' [] 8080 1 ''passing''] (ex_meta 0 []))
          (\<lparr>q_u = 0, q_up = ex_upstream_api ''prepared_query'' ''C'' Map.empty, q_interval = second,
            q_last = None, q_polling = True, q_returned = False, q_slept = 0\<rparr>, ex_watcher [])))
         \<lparr>q_polling := True\<rparr>,
       ex_watcher [ex_entry ''n1'' ''10.0.0.1'' [] 8080 1 ''passing'']))) = \<lparr>cap = 1, buf = 1\<rparr> \<and>
   update (snd (preparedQueryLoop_answer
      (Got [ex_entry ''n1'' ''10.0.0.1'' [] 8080 1 ''passing''] (ex_meta 0 []))
      ((fst (preparedQueryLoop_answer
          (Got [ex_entry ''n1'' ''10.0.0.1'' [] 8080 1 ''passing''] (ex_meta 0 []))
          (\<lparr>q_u = 0, q_up = ex_upstream_api ''prepared_query'' ''C'' Map.empty, q_interval = second,
            q_last = None, q_polling = True, q_returned = False, q_slept = 0\<rparr>, ex_watcher [])))
         \<lparr>q_polling := True\<rparr>,
       ex_watcher [ex_entry ''n1'' ''10.0.0.1'' [] 8080 1 ''passing'']))) = \<lparr>cap = 1, buf = 0\<rparr>"
proof -
  let ?n1 = "[ex_entry ''n1'' ''10.0.0.1'' [] 8080 1 ''passing'']"
  let ?n2 = "[ex_entry ''n1'' ''10.0.0.1'' [] 8080 1 ''passing'',
              ex_entry ''n2'' ''10.0.0.2'' [] 8080 1 ''passing'']"
  let ?g = "\<lparr>q_u = 0, q_up = ex_upstream_api ''prepared_query'' ''C'' Map.empty, q_interval = second,
            q_last = None, q_polling = True, q_returned = False, q_slept = 0\<rparr>
            :: (string, unit) pqLoop"
  note t = preparedQueryLoop_change_detection [where g = ?g and w = "ex_watcher []"
      and ?n1.0 = ?n1 and ?n2.0 = ?n2 and v = "ex_watcher ?n1" and ?m1.0 = "ex_meta 0 []"
      and ?m2.0 = "ex_meta 0 []"]
  note t' = preparedQueryLoop_change_detection [where g = ?g and w = "ex_watcher []"
      and ?n1.0 = ?n1 and ?n2.0 = ?n1 and v = "ex_watcher ?n1" and ?m1.0 = "ex_meta 0 []"
      and ?m2.0 = "ex_meta 0 []"]
  note d = t [THEN conjunct2, THEN conjunct2, THEN conjunct2, THEN conjunct1]
  note d' = t' [THEN conjunct2, THEN conjunct2, THEN conjunct2, THEN conjunct1]
  show ?thesis
    unfolding d d'
    by (simp add: notifyChanged_def send_def ex_entry_def ex_watcher_def New_def make_chan_def)
qed

subsection \<open>The downstream of a registration\<close>







subsection \<open>The leaf at the first call of genCfg\<close>

text \<open>
  C10 fails on the code. \<^verbatim>\<open>watchLeaf\<close> calls \<^verbatim>\<open>w.ready.Done()\<close> at its first successful
  answer whether or not that answer counted as a change, and it stores the certificate
  only when it did. When the first answer of \<^verbatim>\<open>ConnectCALeaf\<close> has index 0, the index the
  loop starts with, the leaf is still nil when the four watches have released the
  barrier: in the run of the example with that index the counter is zero and the leaf is
  nil after the four answers, \<^verbatim>\<open>Run\<close> leaves the wait, takes the signal of the other
  watches, and \<^verbatim>\<open>genCfg\<close> dereferences the nil leaf: the process panics and nothing is sent.
\<close>

theorem genCfg_nil_leaf_panic:
  "ready (watcher (run ex_env (take 4 (ex_trace 0)) ex_start)) = 0 \<and>
   leaf (watcher (run ex_env (take 4 (ex_trace 0)) ex_start)) = None \<and>
   main (run ex_env (take 5 (ex_trace 0)) ex_start) = Ranging \<and>
   crashed (run ex_env (take 5 (ex_trace 0)) ex_start) = None \<and>
   fst (genCfg ex_env (watcher (run ex_env (take 5 (ex_trace 0)) ex_start))) =
     Inl NilPointerDereference \<and>
   crashed (run ex_env (ex_trace 0) ex_start) = Some NilPointerDereference \<and>
   C (watcher (run ex_env (ex_trace 0) ex_start)) = []"
  by (simp add: ex_defs)

end
